theory Spec2Isabelle
  imports Main "HOL-Library.Word" "HOL-Library.AList"
begin

section \<open>JavaScript strings\<close>

text \<open>
  A JavaScript string is a sequence of 16-bit UTF-16 code units: \<open>length\<close>, \<open>slice\<close>,
  \<open>startsWith\<close> and regular expressions without the \<open>u\<close> flag all count code units.
  \<open>js\<close> turns an ASCII literal of the source into such a sequence.
\<close>

type_synonym jschar = "16 word"
type_synonym jsstring = "jschar list"

definition js :: "string \<Rightarrow> jsstring" where
  "js s = map of_char s"

text \<open>The code unit of a number (ToUint16); \<open>String.fromCharCode\<close> applies it to each
  argument.\<close>

definition char_of_code :: "nat \<Rightarrow> jschar" where
  "char_of_code n = of_nat n"

definition fromCharCode :: "nat list \<Rightarrow> jsstring" where
  "fromCharCode ns = map char_of_code ns"

datatype error = ReferenceError | URIError | InvalidCharacterError | SyntaxError | TypeError

abbreviation LF :: jschar where "LF \<equiv> 0x0A"
abbreviation CR :: jschar where "CR \<equiv> 0x0D"
abbreviation DQUOTE :: jschar where "DQUOTE \<equiv> 0x22"
abbreviation PERCENT :: jschar where "PERCENT \<equiv> 0x25"
abbreviation COMMA :: jschar where "COMMA \<equiv> 0x2C"
abbreviation EQUALS :: jschar where "EQUALS \<equiv> 0x3D"
abbreviation BACKSLASH :: jschar where "BACKSLASH \<equiv> 0x5C"

definition startsWith :: "jsstring \<Rightarrow> jsstring \<Rightarrow> bool" where
  "startsWith s p = (take (length p) s = p)"

definition cons_first :: "jschar \<Rightarrow> jsstring list \<Rightarrow> jsstring list" where
  "cons_first c ls = (case ls of [] \<Rightarrow> [[c]] | l # ls' \<Rightarrow> (c # l) # ls')"

text \<open>
  \<open>m3u8.split(/\r?\n/)\<close>: at each position the pattern matches CR LF or a single LF;
  the pieces between the matches are the lines. The empty string gives one empty line.
\<close>

fun split_lines :: "jsstring \<Rightarrow> jsstring list" where
  "split_lines [] = [[]]"
| "split_lines [c] = (if c = LF then [[], []] else [[c]])"
| "split_lines (c # d # cs) =
     (if c = LF then [] # split_lines (d # cs)
      else if c = CR \<and> d = LF then [] # split_lines cs
      else cons_first c (split_lines (d # cs)))"

text \<open>\<open>s.split(/,/)\<close>, for any single separator character.\<close>

fun split_on :: "jschar \<Rightarrow> jsstring \<Rightarrow> jsstring list" where
  "split_on sep [] = [[]]"
| "split_on sep (c # cs) =
     (if c = sep then [] # split_on sep cs else cons_first c (split_on sep cs))"

text \<open>\<open>Array.prototype.join\<close> on an array of strings.\<close>

fun join :: "jsstring \<Rightarrow> jsstring list \<Rightarrow> jsstring" where
  "join sep [] = []"
| "join sep [l] = l"
| "join sep (l # m # ls) = l @ sep @ join sep (m # ls)"

section \<open>Own properties of an ordinary object\<close>

text \<open>
  An object built by assignments is modelled by the list of its own properties in
  creation order: assigning to an existing key replaces the value in place, assigning to
  a new key appends (\<open>AList.update\<close>). \<open>Object.entries\<close> and \<open>JSON.stringify\<close> do not
  enumerate in creation order alone: keys that are array indices (canonical decimal
  numerals below \<open>2^32 - 1\<close>) come first, in ascending numeric order, and the other keys
  follow in creation order.
\<close>

definition is_digit :: "jschar \<Rightarrow> bool" where
  "is_digit c = (0x30 \<le> c \<and> c \<le> 0x39)"

definition dec_value :: "jsstring \<Rightarrow> nat" where
  "dec_value s = foldl (\<lambda>n c. 10 * n + (unat c - 48)) 0 s"

definition is_array_index :: "jsstring \<Rightarrow> bool" where
  "is_array_index s =
     (s \<noteq> [] \<and> list_all is_digit s \<and> (s = [0x30] \<or> hd s \<noteq> 0x30)
      \<and> dec_value s < 4294967295)"

definition entries :: "(jsstring \<times> 'v) list \<Rightarrow> (jsstring \<times> 'v) list" where
  "entries ps =
     sort_key (\<lambda>p. dec_value (fst p)) (filter (\<lambda>p. is_array_index (fst p)) ps)
     @ filter (\<lambda>p. \<not> is_array_index (fst p)) ps"

section \<open>The side-channel codec: encoding\<close>

subsection \<open>\<open>JSON.stringify\<close> of an object whose property values are strings\<close>

definition is_lead :: "jschar \<Rightarrow> bool" where
  "is_lead c = (0xD800 \<le> c \<and> c \<le> 0xDBFF)"

definition is_trail :: "jschar \<Rightarrow> bool" where
  "is_trail c = (0xDC00 \<le> c \<and> c \<le> 0xDFFF)"

definition hex_lower :: "nat \<Rightarrow> jschar" where
  "hex_lower n = char_of_code (if n < 10 then 48 + n else 87 + n)"

definition hex_upper :: "nat \<Rightarrow> jschar" where
  "hex_upper n = char_of_code (if n < 10 then 48 + n else 55 + n)"

text \<open>UnicodeEscape: \<open>\u\<close> and four lower-case hexadecimal digits.\<close>

definition unicode_escape :: "jschar \<Rightarrow> jsstring" where
  "unicode_escape c =
     (let n = unat c in
      [BACKSLASH, 0x75, hex_lower (n div 4096), hex_lower (n div 256 mod 16),
       hex_lower (n div 16 mod 16), hex_lower (n mod 16)])"

text \<open>
  QuoteJSONString on one code unit that is not part of a surrogate pair: the short
  escapes, a \<open>\u\<close> escape for the other control characters and for a lone surrogate
  (well-formed \<open>JSON.stringify\<close>), the character itself otherwise.
\<close>

definition quote_unit :: "jschar \<Rightarrow> jsstring" where
  "quote_unit c =
     (if c = 0x08 then [BACKSLASH, 0x62]
      else if c = 0x09 then [BACKSLASH, 0x74]
      else if c = 0x0A then [BACKSLASH, 0x6E]
      else if c = 0x0C then [BACKSLASH, 0x66]
      else if c = 0x0D then [BACKSLASH, 0x72]
      else if c = DQUOTE then [BACKSLASH, DQUOTE]
      else if c = BACKSLASH then [BACKSLASH, BACKSLASH]
      else if c < 0x20 \<or> is_lead c \<or> is_trail c then unicode_escape c
      else [c])"

text \<open>The string is read by code points: a lead surrogate followed by a trail surrogate
  is one code point and is copied as it is.\<close>

fun quote_body :: "jsstring \<Rightarrow> jsstring" where
  "quote_body [] = []"
| "quote_body [c] = quote_unit c"
| "quote_body (c # d # cs) =
     (if is_lead c \<and> is_trail d then c # d # quote_body cs
      else quote_unit c @ quote_body (d # cs))"

definition quoteJSONString :: "jsstring \<Rightarrow> jsstring" where
  "quoteJSONString s = DQUOTE # quote_body s @ [DQUOTE]"

definition JSON_stringify :: "(jsstring \<times> jsstring) list \<Rightarrow> jsstring" where
  "JSON_stringify obj =
     js ''{'' @ join (js '','')
        (map (\<lambda>p. quoteJSONString (fst p) @ js '':'' @ quoteJSONString (snd p)) (entries obj))
     @ js ''}''"

subsection \<open>\<open>encodeURIComponent\<close> and \<open>unescape\<close>\<close>

text \<open>The UTF-8 octets of a code point.\<close>

definition utf8 :: "nat \<Rightarrow> nat list" where
  "utf8 cp =
     (if cp < 0x80 then [cp]
      else if cp < 0x800 then [0xC0 + cp div 64, 0x80 + cp mod 64]
      else if cp < 0x10000 then [0xE0 + cp div 4096, 0x80 + cp div 64 mod 64, 0x80 + cp mod 64]
      else [0xF0 + cp div 262144, 0x80 + cp div 4096 mod 64, 0x80 + cp div 64 mod 64,
            0x80 + cp mod 64])"

definition pair_code_point :: "jschar \<Rightarrow> jschar \<Rightarrow> nat" where
  "pair_code_point c d = (unat c - 0xD800) * 0x400 + (unat d - 0xDC00) + 0x10000"

definition percent_octet :: "nat \<Rightarrow> jsstring" where
  "percent_octet b = [PERCENT, hex_upper (b div 16), hex_upper (b mod 16)]"

definition percent_encode :: "nat list \<Rightarrow> jsstring" where
  "percent_encode bs = concat (map percent_octet bs)"

definition is_alnum :: "jschar \<Rightarrow> bool" where
  "is_alnum c = ((0x41 \<le> c \<and> c \<le> 0x5A) \<or> (0x61 \<le> c \<and> c \<le> 0x7A) \<or> is_digit c)"

text \<open>The characters \<open>encodeURIComponent\<close> leaves alone: alphanumerics and \<open>-_.!~*'()\<close>.\<close>

definition uri_unreserved :: "jschar \<Rightarrow> bool" where
  "uri_unreserved c = (is_alnum c \<or> c \<in> set (js ''-_.!~*'' @ [0x27] @ js ''()''))"

definition prepend :: "jsstring \<Rightarrow> error + jsstring \<Rightarrow> error + jsstring" where
  "prepend p r = (case r of Inl e \<Rightarrow> Inl e | Inr s \<Rightarrow> Inr (p @ s))"

text \<open>Encode of the ECMAScript specification: a lone surrogate raises URIError.\<close>

fun encodeURIComponent :: "jsstring \<Rightarrow> error + jsstring" where
  "encodeURIComponent [] = Inr []"
| "encodeURIComponent (c # cs) =
     (if uri_unreserved c then prepend [c] (encodeURIComponent cs)
      else if is_trail c then Inl URIError
      else if is_lead c then
        (case cs of
           [] \<Rightarrow> Inl URIError
         | d # ds \<Rightarrow>
             if is_trail d
             then prepend (percent_encode (utf8 (pair_code_point c d))) (encodeURIComponent ds)
             else Inl URIError)
      else prepend (percent_encode (utf8 (unat c))) (encodeURIComponent cs))"

definition is_hex :: "jschar \<Rightarrow> bool" where
  "is_hex c = (is_digit c \<or> (0x41 \<le> c \<and> c \<le> 0x46) \<or> (0x61 \<le> c \<and> c \<le> 0x66))"

definition hex_digit_value :: "jschar \<Rightarrow> nat" where
  "hex_digit_value c =
     (if is_digit c then unat c - 48 else if c \<le> 0x46 then unat c - 55 else unat c - 87)"

definition hex_value :: "jsstring \<Rightarrow> nat" where
  "hex_value s = foldl (\<lambda>n c. 16 * n + hex_digit_value c) 0 s"

text \<open>\<open>unescape\<close> (Annex B): \<open>%uXXXX\<close> and \<open>%XX\<close> become the code unit they name, any
  other character, a stray \<open>%\<close> included, is copied.\<close>

fun unescape :: "jsstring \<Rightarrow> jsstring" where
  "unescape [] = []"
| "unescape (c # cs) =
     (if c = PERCENT \<and> 5 \<le> length cs \<and> hd cs = 0x75 \<and> list_all is_hex (take 4 (tl cs))
      then char_of_code (hex_value (take 4 (tl cs))) # unescape (drop 5 cs)
      else if c = PERCENT \<and> 2 \<le> length cs \<and> list_all is_hex (take 2 cs)
      then char_of_code (hex_value (take 2 cs)) # unescape (drop 2 cs)
      else c # unescape cs)"

subsection \<open>\<open>window.btoa\<close>\<close>

definition b64_char :: "nat \<Rightarrow> jschar" where
  "b64_char n =
     char_of_code (if n < 26 then 65 + n else if n < 52 then 71 + n else if n < 62 then n - 4
             else if n = 62 then 43 else 47)"

fun b64_encode :: "nat list \<Rightarrow> jsstring" where
  "b64_encode (a # b # c # r) =
     [b64_char (a div 4), b64_char (a mod 4 * 16 + b div 16),
      b64_char (b mod 16 * 4 + c div 64), b64_char (c mod 64)] @ b64_encode r"
| "b64_encode [a, b] =
     [b64_char (a div 4), b64_char (a mod 4 * 16 + b div 16), b64_char (b mod 16 * 4), EQUALS]"
| "b64_encode [a] = [b64_char (a div 4), b64_char (a mod 4 * 16), EQUALS, EQUALS]"
| "b64_encode [] = []"

text \<open>\<open>btoa\<close> raises InvalidCharacterError when a code unit is above \<open>0xFF\<close>.\<close>

definition btoa :: "jsstring \<Rightarrow> error + jsstring" where
  "btoa s =
     (if list_all (\<lambda>c. c \<le> 0xFF) s then Inr (b64_encode (map unat s))
      else Inl InvalidCharacterError)"

subsection \<open>\<open>encodeObject\<close>\<close>

text \<open>
  The source tests \<open>typeof window\<close>: in a browser it calls \<open>window.btoa\<close> and
  \<open>window.atob\<close>, elsewhere Node's \<open>Buffer\<close>. The two \<open>Buffer\<close> conversions
  (\<open>Buffer.from(m).toString('base64')\<close> and \<open>Buffer.from(str, 'base64').toString()\<close>)
  never raise on a string; they are taken as parameters of the \<open>Node\<close> environment.
  The cast receiver runs in the browser environment.
\<close>

datatype env = Browser | Node "jsstring \<Rightarrow> jsstring" "jsstring \<Rightarrow> jsstring"

definition encodeObject :: "env \<Rightarrow> (jsstring \<times> jsstring) list \<Rightarrow> error + jsstring" where
  "encodeObject ev obj =
     (case encodeURIComponent (JSON_stringify obj) of
        Inl e \<Rightarrow> Inl e
      | Inr u \<Rightarrow>
          (let m = unescape u in
           case ev of
             Browser \<Rightarrow> btoa m
           | Node to_base64 from_base64 \<Rightarrow> Inr (to_base64 m)))"

section \<open>The manifest rewriter\<close>

subsection \<open>The attribute object \<open>kv\<close>\<close>

record attr =
  val :: jsstring
  quoted :: bool

type_synonym kvobj = "(jsstring \<times> attr) list"

text \<open>
  \<open>kv[res[1]] = { value, quoted }\<close> on an object created by \<open>{}\<close>. The key
  \<open>__proto__\<close>, which the key pattern admits, does not create an own property: the
  assignment replaces the prototype of \<open>kv\<close> by the new object, whose own properties are
  \<open>value\<close> and \<open>quoted\<close>. The source reads only the keys \<open>TYPE\<close>, \<open>LANGUAGE\<close>,
  \<open>NAME\<close>, \<open>FORCED\<close>, \<open>CHANNELS\<close>, \<open>CHARACTERISTICS\<close> and \<open>GROUP-ID\<close>, which neither
  that prototype nor \<open>Object.prototype\<close> has, so a read is a lookup among the own
  properties.
\<close>

definition kv_set :: "kvobj \<Rightarrow> jsstring \<Rightarrow> attr \<Rightarrow> kvobj" where
  "kv_set kv k a = (if k = js ''__proto__'' then kv else AList.update k a kv)"

definition kv_get :: "kvobj \<Rightarrow> jsstring \<Rightarrow> attr option" where
  "kv_get kv k = map_of kv k"

subsection \<open>The two patterns of the attribute parser\<close>

text \<open>The class \<open>[A-Za-z0-9_-]\<close>.\<close>

definition is_keychar :: "jschar \<Rightarrow> bool" where
  "is_keychar c = (is_alnum c \<or> c = 0x5F \<or> c = 0x2D)"

text \<open>The class \<open>\s\<close>: WhiteSpace and LineTerminator of ECMAScript.\<close>

definition is_space :: "jschar \<Rightarrow> bool" where
  "is_space c =
     ((0x09 \<le> c \<and> c \<le> 0x0D) \<or> c = 0x20 \<or> c = 0xA0 \<or> c = 0x1680
      \<or> (0x2000 \<le> c \<and> c \<le> 0x200A) \<or> c = 0x2028 \<or> c = 0x2029 \<or> c = 0x202F
      \<or> c = 0x205F \<or> c = 0x3000 \<or> c = 0xFEFF)"

text \<open>The characters \<open>.\<close> does not match.\<close>

definition is_line_terminator :: "jschar \<Rightarrow> bool" where
  "is_line_terminator c = (c = LF \<or> c = CR \<or> c = 0x2028 \<or> c = 0x2029)"

text \<open>
  \<open>line.match(/^([A-Za-z0-9_-]+)="([^"]*)"\s*,?(.*)$/)\<close>, giving the three groups.
  Backtracking never finds a match the greedy choices miss: a shorter key is followed by
  a key character and not by \<open>=\<close>; a shorter value is followed by a character that is
  not \<open>"\<close>; and taking less white space or leaving the comma only gives \<open>(.*)$\<close> a
  longer remainder, which contains every line terminator of the shorter one.
\<close>

definition match_quoted :: "jsstring \<Rightarrow> (jsstring \<times> jsstring \<times> jsstring) option" where
  "match_quoted line =
     (let key = takeWhile is_keychar line;
          r1 = dropWhile is_keychar line
      in if key = [] \<or> \<not> startsWith r1 [EQUALS, DQUOTE] then None
         else
           let r2 = drop 2 r1;
               v = takeWhile (\<lambda>c. c \<noteq> DQUOTE) r2;
               r3 = dropWhile (\<lambda>c. c \<noteq> DQUOTE) r2
           in if r3 = [] then None
              else
                let r4 = dropWhile is_space (tl r3);
                    r5 = (if r4 \<noteq> [] \<and> hd r4 = COMMA then tl r4 else r4)
                in if list_ex is_line_terminator r5 then None else Some (key, v, r5))"

text \<open>
  \<open>line.match(/^([A-Za-z0-9_-]+)=([^,]*)\s*,?(.*)$/)\<close>. The value runs to the first
  comma or to the end, so \<open>\s*\<close> matches nothing after it; a shorter value leaves
  \<open>(.*)$\<close> the same text after the first comma.
\<close>

definition match_bare :: "jsstring \<Rightarrow> (jsstring \<times> jsstring \<times> jsstring) option" where
  "match_bare line =
     (let key = takeWhile is_keychar line;
          r1 = dropWhile is_keychar line
      in if key = [] \<or> \<not> startsWith r1 [EQUALS] then None
         else
           let r2 = drop 1 r1;
               v = takeWhile (\<lambda>c. c \<noteq> COMMA) r2;
               r3 = dropWhile (\<lambda>c. c \<noteq> COMMA) r2;
               r5 = (if r3 \<noteq> [] then tl r3 else r3)
           in if list_ex is_line_terminator r5 then None else Some (key, v, r5))"

text \<open>One turn of the \<open>while\<close> loop: the quoted pattern first, the bare one second;
  the result is \<open>res[1]\<close>, the new attribute and \<open>res[3]\<close>.\<close>

definition match_attr :: "jsstring \<Rightarrow> (jsstring \<times> attr \<times> jsstring) option" where
  "match_attr line =
     (case match_quoted line of
        Some (k, v, rest) \<Rightarrow> Some (k, \<lparr>val = v, quoted = True\<rparr>, rest)
      | None \<Rightarrow>
          (case match_bare line of
             Some (k, v, rest) \<Rightarrow> Some (k, \<lparr>val = v, quoted = False\<rparr>, rest)
           | None \<Rightarrow> None))"

lemma match_quoted_shorter:
  "match_quoted line = Some (k, v, rest) \<Longrightarrow> length rest < length line"
proof -
  assume m: "match_quoted line = Some (k, v, rest)"
  define r1 where "r1 = dropWhile is_keychar line"
  define r3 where "r3 = dropWhile (\<lambda>c. c \<noteq> DQUOTE) (drop 2 r1)"
  define r4 where "r4 = dropWhile is_space (tl r3)"
  from m have r3: "r3 \<noteq> []" and rest: "rest = (if r4 \<noteq> [] \<and> hd r4 = COMMA then tl r4 else r4)"
    by (auto simp: match_quoted_def Let_def r1_def r3_def r4_def split: if_splits)
  have "length rest \<le> length r4" by (simp add: rest)
  also have "\<dots> \<le> length (tl r3)" unfolding r4_def by (rule length_dropWhile_le)
  also have "\<dots> < length r3" using r3 by (cases r3) auto
  also have "\<dots> \<le> length (drop 2 r1)" unfolding r3_def by (rule length_dropWhile_le)
  also have "\<dots> \<le> length r1" by simp
  also have "\<dots> \<le> length line" unfolding r1_def by (rule length_dropWhile_le)
  finally show ?thesis .
qed

lemma match_bare_shorter:
  "match_bare line = Some (k, v, rest) \<Longrightarrow> length rest < length line"
proof -
  assume m: "match_bare line = Some (k, v, rest)"
  define r1 where "r1 = dropWhile is_keychar line"
  define r3 where "r3 = dropWhile (\<lambda>c. c \<noteq> COMMA) (drop 1 r1)"
  from m have sw: "startsWith r1 [EQUALS]"
    and rest: "rest = (if r3 \<noteq> [] then tl r3 else r3)"
    by (auto simp: match_bare_def Let_def r1_def r3_def split: if_splits)
  from sw have r1: "r1 \<noteq> []" by (auto simp: startsWith_def)
  have "length rest \<le> length r3" by (simp add: rest)
  also have "\<dots> \<le> length (drop 1 r1)" unfolding r3_def by (rule length_dropWhile_le)
  also have "\<dots> < length r1" using r1 by (cases r1) auto
  also have "\<dots> \<le> length line" unfolding r1_def by (rule length_dropWhile_le)
  finally show ?thesis .
qed

lemma match_attr_shorter:
  "match_attr line = Some (k, a, rest) \<Longrightarrow> length rest < length line"
  by (auto simp: match_attr_def split: option.splits
      dest: match_quoted_shorter match_bare_shorter)

text \<open>The loop \<open>while (line.length > 0)\<close>: it stops at the first remainder that neither
  pattern matches and keeps what it has parsed.\<close>

function parseAttrs :: "kvobj \<Rightarrow> jsstring \<Rightarrow> kvobj" where
  "parseAttrs kv line =
     (if line = [] then kv
      else case match_attr line of
             None \<Rightarrow> kv
           | Some (k, a, rest) \<Rightarrow> parseAttrs (kv_set kv k a) rest)"
  by pat_completeness auto
termination
  by (relation "measure (\<lambda>(kv, line). length line)") (auto dest: match_attr_shorter)

declare parseAttrs.simps [simp del]

text \<open>The loop over \<open>Object.entries(kv)\<close> and \<open>kvn.join(',')\<close>.\<close>

definition render_attr :: "jsstring \<times> attr \<Rightarrow> jsstring" where
  "render_attr p =
     (if quoted (snd p) then fst p @ [EQUALS, DQUOTE] @ val (snd p) @ [DQUOTE]
      else fst p @ [EQUALS] @ val (snd p))"

definition serializeAttrs :: "kvobj \<Rightarrow> jsstring" where
  "serializeAttrs kv = join [COMMA] (map render_attr (entries kv))"

subsection \<open>\<open>langTag\<close>\<close>

text \<open>
  \<open>state\<close> is an object used as a dictionary from the key \<open>gid.lang\<close> to a count. The
  key contains a dot, so it names no property of \<open>Object.prototype\<close>, and
  \<open>!state[key]\<close> holds when the key is absent or its count is 0.

  For \<open>tagSeq > 26\<close> the source executes \<open>tagseq -= 25\<close>: \<open>tagseq\<close>, in lower case, is
  declared nowhere, and reading it raises a ReferenceError. The assignment to
  \<open>firstLetter\<close> and the second test of \<open>tagSeq > 26\<close> come after it.
\<close>

type_synonym tagstate = "jsstring \<rightharpoonup> nat"

definition langTag :: "tagstate \<Rightarrow> kvobj \<Rightarrow> error + (tagstate \<times> jsstring)" where
  "langTag state kv =
     (let gid = (case kv_get kv (js ''GROUP-ID'') of Some a \<Rightarrow> val a | None \<Rightarrow> js ''gid'');
          lang = (case kv_get kv (js ''LANGUAGE'') of Some a \<Rightarrow> val a | None \<Rightarrow> js ''und'');
          key = gid @ js ''.'' @ lang;
          absent = (case state key of None \<Rightarrow> True | Some n \<Rightarrow> n = 0);
          tagSeq = (if absent then 0 else the (state key));
          state' = (if absent then state(key \<mapsto> 1) else state(key \<mapsto> the (state key) + 1))
      in if tagSeq = 0 then Inr (state', lang)
         else if tagSeq > 26 then Inl ReferenceError
         else
           let firstLetter = 88;
               tagSeq' = (if tagSeq > 26 then 26 else tagSeq);
               tag = fromCharCode [firstLetter, 64 + tagSeq']
           in Inr (state', lang @ js ''-'' @ tag))"

subsection \<open>\<open>manifestRewriter\<close>\<close>

text \<open>The object \<open>obj\<close>: the values of the four known attributes that the line has, in
  the order of the source's loop.\<close>

definition collect :: "kvobj \<Rightarrow> (jsstring \<times> jsstring) list" where
  "collect kv =
     List.map_filter (\<lambda>key. map_option (\<lambda>a. (key, val a)) (kv_get kv key))
       [js ''LANGUAGE'', js ''NAME'', js ''FORCED'', js ''CHANNELS'']"

text \<open>The body of the \<open>for\<close> loop on one line, with the state it leaves. The count
  \<open>numUpdated\<close> only feeds \<open>console.log\<close> and is left out.\<close>

definition rewriteLine :: "env \<Rightarrow> tagstate \<Rightarrow> jsstring \<Rightarrow> error + (tagstate \<times> jsstring)" where
  "rewriteLine ev state line =
     (if \<not> startsWith line (js ''#EXT-X-MEDIA:'') then Inr (state, line)
      else
        let kv = parseAttrs [] (drop 13 line) in
        case kv_get kv (js ''TYPE'') of
          None \<Rightarrow> Inr (state, line)
        | Some t \<Rightarrow>
            if val t \<noteq> js ''SUBTITLES'' \<and> val t \<noteq> js ''AUDIO'' then Inr (state, line)
            else
              let obj = collect kv;
                  ch = (case kv_get kv (js ''CHARACTERISTICS'') of
                          Some a \<Rightarrow> split_on COMMA (val a)
                        | None \<Rightarrow> [])
              in case encodeObject ev obj of
                   Inl e \<Rightarrow> Inl e
                 | Inr payload \<Rightarrow>
                     let kv1 = kv_set kv (js ''CHARACTERISTICS'')
                                 \<lparr>val = join [COMMA] (ch @ [js ''xyzzy.obj.'' @ payload]),
                                  quoted = True\<rparr>
                     in case langTag state kv1 of
                          Inl e \<Rightarrow> Inl e
                        | Inr (state', tag) \<Rightarrow>
                            let kv2 = kv_set kv1 (js ''LANGUAGE'') \<lparr>val = tag, quoted = True\<rparr>
                            in Inr (state', js ''#EXT-X-MEDIA:'' @ serializeAttrs kv2))"

text \<open>The \<open>for\<close> loop over the lines: an exception leaves the loop and the function.\<close>

fun rewriteLines :: "env \<Rightarrow> tagstate \<Rightarrow> jsstring list \<Rightarrow> error + jsstring list" where
  "rewriteLines ev state [] = Inr []"
| "rewriteLines ev state (l # ls) =
     (case rewriteLine ev state l of
        Inl e \<Rightarrow> Inl e
      | Inr (state', l') \<Rightarrow>
          (case rewriteLines ev state' ls of
             Inl e \<Rightarrow> Inl e
           | Inr ls' \<Rightarrow> Inr (l' # ls')))"

definition manifestRewriter :: "env \<Rightarrow> jsstring \<Rightarrow> error + jsstring" where
  "manifestRewriter ev m3u8 =
     (case rewriteLines ev Map.empty (split_lines m3u8) of
        Inl e \<Rightarrow> Inl e
      | Inr lines \<Rightarrow> Inr (join [LF] lines))"

section \<open>The side-channel codec: decoding\<close>

subsection \<open>\<open>window.atob\<close>\<close>

definition is_ascii_whitespace :: "jschar \<Rightarrow> bool" where
  "is_ascii_whitespace c = (c = 0x09 \<or> c = 0x0A \<or> c = 0x0C \<or> c = 0x0D \<or> c = 0x20)"

definition is_b64 :: "jschar \<Rightarrow> bool" where
  "is_b64 c = (is_alnum c \<or> c = 0x2B \<or> c = 0x2F)"

definition b64_value :: "jschar \<Rightarrow> nat" where
  "b64_value c =
     (let n = unat c in
      if 65 \<le> n \<and> n \<le> 90 then n - 65
      else if 97 \<le> n \<and> n \<le> 122 then n - 71
      else if 48 \<le> n \<and> n \<le> 57 then n + 4
      else if n = 43 then 62 else 63)"

definition strip_padding :: "jsstring \<Rightarrow> jsstring" where
  "strip_padding d =
     (if d \<noteq> [] \<and> last d = EQUALS
      then (let d' = butlast d in if d' \<noteq> [] \<and> last d' = EQUALS then butlast d' else d')
      else d)"

fun b64_decode :: "nat list \<Rightarrow> nat list" where
  "b64_decode (a # b # c # d # r) =
     [a * 4 + b div 16, b mod 16 * 16 + c div 4, c mod 4 * 64 + d] @ b64_decode r"
| "b64_decode [a, b, c] = [a * 4 + b div 16, b mod 16 * 16 + c div 4]"
| "b64_decode [a, b] = [a * 4 + b div 16]"
| "b64_decode [a] = []"
| "b64_decode [] = []"

text \<open>
  The forgiving-base64 decode of the HTML standard: ASCII white space is removed; if the
  length is then a multiple of four, one or two trailing \<open>=\<close> are removed; a length of
  one modulo four or a character outside the alphabet raises InvalidCharacterError.
\<close>

definition atob :: "jsstring \<Rightarrow> error + jsstring" where
  "atob s =
     (let d0 = filter (\<lambda>c. \<not> is_ascii_whitespace c) s;
          d = (if length d0 mod 4 = 0 then strip_padding d0 else d0)
      in if length d mod 4 = 1 \<or> \<not> list_all is_b64 d then Inl InvalidCharacterError
         else Inr (map char_of_code (b64_decode (map b64_value d))))"

subsection \<open>\<open>escape\<close> and \<open>decodeURIComponent\<close>\<close>

text \<open>The characters \<open>escape\<close> leaves alone: alphanumerics and \<open>@*_+-./\<close>.\<close>

definition escape_unreserved :: "jschar \<Rightarrow> bool" where
  "escape_unreserved c = (is_alnum c \<or> c \<in> set (js ''@*_+-./''))"

definition escape_unit :: "jschar \<Rightarrow> jsstring" where
  "escape_unit c =
     (let n = unat c in
      if escape_unreserved c then [c]
      else if n < 256 then [PERCENT, hex_upper (n div 16), hex_upper (n mod 16)]
      else [PERCENT, 0x75, hex_upper (n div 4096), hex_upper (n div 256 mod 16),
            hex_upper (n div 16 mod 16), hex_upper (n mod 16)])"

definition escape :: "jsstring \<Rightarrow> jsstring" where
  "escape s = concat (map escape_unit s)"

text \<open>The octet named by the two characters after a \<open>%\<close>, if they are hexadecimal digits.\<close>

definition hex_pair :: "jsstring \<Rightarrow> nat option" where
  "hex_pair cs =
     (if 2 \<le> length cs \<and> list_all is_hex (take 2 cs) then Some (hex_value (take 2 cs))
      else None)"

text \<open>The number of leading 1 bits of an octet (5 stands for five or more).\<close>

definition leading_ones :: "nat \<Rightarrow> nat" where
  "leading_ones b =
     (if b < 0x80 then 0 else if b < 0xC0 then 1 else if b < 0xE0 then 2
      else if b < 0xF0 then 3 else if b < 0xF8 then 4 else 5)"

text \<open>The \<open>k\<close> escapes \<open>%XX\<close> that must follow the first octet of a sequence.\<close>

fun cont_octets :: "nat \<Rightarrow> jsstring \<Rightarrow> nat list option" where
  "cont_octets 0 s = Some []"
| "cont_octets (Suc k) [] = None"
| "cont_octets (Suc k) (c # cs) =
     (if c \<noteq> PERCENT then None
      else case hex_pair cs of
             None \<Rightarrow> None
           | Some b \<Rightarrow> map_option ((#) b) (cont_octets k (drop 2 cs)))"

definition is_cont :: "nat \<Rightarrow> bool" where
  "is_cont b = (0x80 \<le> b \<and> b < 0xC0)"

text \<open>The code point of a sequence of two to four octets, if the sequence is valid
  UTF-8: continuation octets, no overlong form, no surrogate, at most \<open>0x10FFFF\<close>.\<close>

definition utf8_decode :: "nat list \<Rightarrow> nat option" where
  "utf8_decode bs =
     (case bs of
        [a, b] \<Rightarrow>
          (let v = (a - 0xC0) * 64 + (b - 0x80)
           in if is_cont b \<and> 0x80 \<le> v then Some v else None)
      | [a, b, c] \<Rightarrow>
          (let v = (a - 0xE0) * 4096 + (b - 0x80) * 64 + (c - 0x80)
           in if is_cont b \<and> is_cont c \<and> 0x800 \<le> v \<and> \<not> (0xD800 \<le> v \<and> v \<le> 0xDFFF)
              then Some v else None)
      | [a, b, c, d] \<Rightarrow>
          (let v = (a - 0xF0) * 262144 + (b - 0x80) * 4096 + (c - 0x80) * 64 + (d - 0x80)
           in if is_cont b \<and> is_cont c \<and> is_cont d \<and> 0x10000 \<le> v \<and> v \<le> 0x10FFFF
              then Some v else None)
      | _ \<Rightarrow> None)"

text \<open>UTF16EncodeCodePoint.\<close>

definition utf16 :: "nat \<Rightarrow> jsstring" where
  "utf16 cp =
     (if cp \<le> 0xFFFF then [char_of_code cp]
      else [char_of_code ((cp - 0x10000) div 1024 + 0xD800),
            char_of_code ((cp - 0x10000) mod 1024 + 0xDC00)])"

text \<open>Decode of the ECMAScript specification with an empty set of preserved escapes.\<close>

fun decodeURIComponent :: "jsstring \<Rightarrow> error + jsstring" where
  "decodeURIComponent [] = Inr []"
| "decodeURIComponent (c # cs) =
     (if c \<noteq> PERCENT then prepend [c] (decodeURIComponent cs)
      else case hex_pair cs of
             None \<Rightarrow> Inl URIError
           | Some b \<Rightarrow>
               if leading_ones b = 0
               then prepend [char_of_code b] (decodeURIComponent (drop 2 cs))
               else if leading_ones b = 1 \<or> leading_ones b > 4 then Inl URIError
               else case cont_octets (leading_ones b - 1) (drop 2 cs) of
                      None \<Rightarrow> Inl URIError
                    | Some bs \<Rightarrow>
                        (case utf8_decode (b # bs) of
                           None \<Rightarrow> Inl URIError
                         | Some cp \<Rightarrow>
                             prepend (utf16 cp)
                               (decodeURIComponent (drop (2 + 3 * (leading_ones b - 1)) cs))))"

subsection \<open>\<open>JSON.parse\<close>\<close>

text \<open>
  JSON values as JavaScript values. A number keeps its token: the only thing the
  receiver asks of a number is whether it is truthy.
\<close>

datatype jsval =
    Undefined
  | Null
  | JBool bool
  | JNum jsstring
  | JStr jsstring
  | JArr "jsval list"
  | JObj "(jsstring \<times> jsval) list"

text \<open>
  The parser reads the text one character at a time. Its state is the stack of the
  arrays and objects that are open (an object with the key whose value is awaited)
  and a mode.
\<close>

datatype frame = FArr "jsval list" | FObj "(jsstring \<times> jsval) list" jsstring

datatype numstate = NMinus | NZero | NInt | NDot | NFrac | NExp | NExpSign | NExpDigits

datatype mode =
    MValue
  | MArrFirst
  | MObjFirst
  | MKey
  | MColon
  | MAfter
  | MDone jsval
  | MStr bool jsstring
  | MEsc bool jsstring
  | MUni bool jsstring nat nat
  | MLit jsstring jsval
  | MNum numstate jsstring

type_synonym pstate = "frame list \<times> mode"

definition is_json_ws :: "jschar \<Rightarrow> bool" where
  "is_json_ws c = (c = 0x09 \<or> c = 0x0A \<or> c = 0x0D \<or> c = 0x20)"

text \<open>A finished value goes to the innermost open array or object, or is the result.
  A repeated key of an object keeps its place and takes the last value.\<close>

fun complete :: "jsval \<Rightarrow> frame list \<Rightarrow> pstate" where
  "complete v [] = ([], MDone v)"
| "complete v (FArr vs # st) = (FArr (vs @ [v]) # st, MAfter)"
| "complete v (FObj ps k # st) = (FObj (AList.update k v ps) [] # st, MAfter)"

definition after_value :: "frame list \<Rightarrow> jschar \<Rightarrow> error + pstate" where
  "after_value st c =
     (if is_json_ws c then Inr (st, MAfter)
      else case st of
             [] \<Rightarrow> Inl SyntaxError
           | FArr vs # st' \<Rightarrow>
               if c = COMMA then Inr (st, MValue)
               else if c = 0x5D then Inr (complete (JArr vs) st')
               else Inl SyntaxError
           | FObj ps k # st' \<Rightarrow>
               if c = COMMA then Inr (st, MKey)
               else if c = 0x7D then Inr (complete (JObj ps) st')
               else Inl SyntaxError)"

text \<open>The character after a number ends the number and is then read as the character
  after a value.\<close>

definition closed_step :: "pstate \<Rightarrow> jschar \<Rightarrow> error + pstate" where
  "closed_step s c =
     (case snd s of
        MDone v \<Rightarrow> if is_json_ws c then Inr s else Inl SyntaxError
      | _ \<Rightarrow> after_value (fst s) c)"

definition value_start :: "frame list \<Rightarrow> jschar \<Rightarrow> error + pstate" where
  "value_start st c =
     (if c = DQUOTE then Inr (st, MStr False [])
      else if c = 0x7B then Inr (FObj [] [] # st, MObjFirst)
      else if c = 0x5B then Inr (FArr [] # st, MArrFirst)
      else if c = 0x74 then Inr (st, MLit (js ''rue'') (JBool True))
      else if c = 0x66 then Inr (st, MLit (js ''alse'') (JBool False))
      else if c = 0x6E then Inr (st, MLit (js ''ull'') Null)
      else if c = 0x2D then Inr (st, MNum NMinus [c])
      else if c = 0x30 then Inr (st, MNum NZero [c])
      else if is_digit c then Inr (st, MNum NInt [c])
      else Inl SyntaxError)"

definition is_exp :: "jschar \<Rightarrow> bool" where
  "is_exp c = (c = 0x65 \<or> c = 0x45)"

fun num_step :: "numstate \<Rightarrow> jschar \<Rightarrow> numstate option" where
  "num_step NMinus c = (if c = 0x30 then Some NZero else if is_digit c then Some NInt else None)"
| "num_step NZero c = (if c = 0x2E then Some NDot else if is_exp c then Some NExp else None)"
| "num_step NInt c =
     (if is_digit c then Some NInt else if c = 0x2E then Some NDot
      else if is_exp c then Some NExp else None)"
| "num_step NDot c = (if is_digit c then Some NFrac else None)"
| "num_step NFrac c = (if is_digit c then Some NFrac else if is_exp c then Some NExp else None)"
| "num_step NExp c =
     (if c = 0x2B \<or> c = 0x2D then Some NExpSign else if is_digit c then Some NExpDigits else None)"
| "num_step NExpSign c = (if is_digit c then Some NExpDigits else None)"
| "num_step NExpDigits c = (if is_digit c then Some NExpDigits else None)"

fun num_final :: "numstate \<Rightarrow> bool" where
  "num_final NZero = True"
| "num_final NInt = True"
| "num_final NFrac = True"
| "num_final NExpDigits = True"
| "num_final _ = False"

text \<open>The character a one-letter escape stands for.\<close>

definition escape_char :: "jschar \<Rightarrow> jschar option" where
  "escape_char c =
     (if c = DQUOTE \<or> c = BACKSLASH \<or> c = 0x2F then Some c
      else if c = 0x62 then Some 0x08
      else if c = 0x66 then Some 0x0C
      else if c = 0x6E then Some 0x0A
      else if c = 0x72 then Some 0x0D
      else if c = 0x74 then Some 0x09
      else None)"

fun json_step :: "pstate \<Rightarrow> jschar \<Rightarrow> error + pstate" where
  "json_step (st, MValue) c = (if is_json_ws c then Inr (st, MValue) else value_start st c)"
| "json_step (st, MArrFirst) c =
     (if is_json_ws c then Inr (st, MArrFirst)
      else if c = 0x5D then
        (case st of FArr vs # st' \<Rightarrow> Inr (complete (JArr vs) st') | _ \<Rightarrow> Inl SyntaxError)
      else value_start st c)"
| "json_step (st, MObjFirst) c =
     (if is_json_ws c then Inr (st, MObjFirst)
      else if c = 0x7D then
        (case st of FObj ps k # st' \<Rightarrow> Inr (complete (JObj ps) st') | _ \<Rightarrow> Inl SyntaxError)
      else if c = DQUOTE then Inr (st, MStr True [])
      else Inl SyntaxError)"
| "json_step (st, MKey) c =
     (if is_json_ws c then Inr (st, MKey)
      else if c = DQUOTE then Inr (st, MStr True [])
      else Inl SyntaxError)"
| "json_step (st, MColon) c =
     (if is_json_ws c then Inr (st, MColon)
      else if c = 0x3A then Inr (st, MValue)
      else Inl SyntaxError)"
| "json_step (st, MAfter) c = after_value st c"
| "json_step (st, MDone v) c = closed_step (st, MDone v) c"
| "json_step (st, MStr is_key acc) c =
     (if c = DQUOTE then
        (if is_key then
           (case st of
              FObj ps k # st' \<Rightarrow> Inr (FObj ps acc # st', MColon)
            | _ \<Rightarrow> Inl SyntaxError)
         else Inr (complete (JStr acc) st))
      else if c = BACKSLASH then Inr (st, MEsc is_key acc)
      else if c < 0x20 then Inl SyntaxError
      else Inr (st, MStr is_key (acc @ [c])))"
| "json_step (st, MEsc is_key acc) c =
     (case escape_char c of
        Some d \<Rightarrow> Inr (st, MStr is_key (acc @ [d]))
      | None \<Rightarrow> if c = 0x75 then Inr (st, MUni is_key acc 4 0) else Inl SyntaxError)"
| "json_step (st, MUni is_key acc n v) c =
     (if is_hex c then
        (if n \<le> 1
         then Inr (st, MStr is_key (acc @ [char_of_code (16 * v + hex_digit_value c)]))
         else Inr (st, MUni is_key acc (n - 1) (16 * v + hex_digit_value c)))
      else Inl SyntaxError)"
| "json_step (st, MLit rest v) c =
     (case rest of
        [] \<Rightarrow> Inl SyntaxError
      | r # rs \<Rightarrow>
          if c \<noteq> r then Inl SyntaxError
          else if rs = [] then Inr (complete v st)
          else Inr (st, MLit rs v))"
| "json_step (st, MNum ns tok) c =
     (case num_step ns c of
        Some ns' \<Rightarrow> Inr (st, MNum ns' (tok @ [c]))
      | None \<Rightarrow>
          if num_final ns then closed_step (complete (JNum tok) st) c else Inl SyntaxError)"

fun json_run :: "pstate \<Rightarrow> jsstring \<Rightarrow> error + pstate" where
  "json_run s [] = Inr s"
| "json_run s (c # cs) =
     (case json_step s c of Inl e \<Rightarrow> Inl e | Inr s' \<Rightarrow> json_run s' cs)"

definition JSON_parse :: "jsstring \<Rightarrow> error + jsval" where
  "JSON_parse text =
     (case json_run ([], MValue) text of
        Inl e \<Rightarrow> Inl e
      | Inr (st, m) \<Rightarrow>
          (case m of
             MDone v \<Rightarrow> Inr v
           | MNum ns tok \<Rightarrow>
               if st = [] \<and> num_final ns then Inr (JNum tok) else Inl SyntaxError
           | _ \<Rightarrow> Inl SyntaxError))"

subsection \<open>\<open>decodeObject\<close>\<close>

definition decodeObject :: "env \<Rightarrow> jsstring \<Rightarrow> error + jsval" where
  "decodeObject ev str =
     (case (case ev of
              Browser \<Rightarrow> atob str
            | Node to_base64 from_base64 \<Rightarrow> Inr (from_base64 str)) of
        Inl e \<Rightarrow> Inl e
      | Inr m \<Rightarrow>
          (case decodeURIComponent (escape m) of
             Inl e \<Rightarrow> Inl e
           | Inr u \<Rightarrow> JSON_parse u))"

section \<open>The track updater\<close>

text \<open>
  A track descriptor of a MEDIA_STATUS message. The four fields the updater writes hold
  JavaScript values, since it stores whatever the decoded object carries; \<open>roles\<close> is
  an array of strings or is absent. The record is extensible: the other fields of a
  track, of \<open>media\<close> and of the message are carried along untouched.
\<close>

record track =
  language :: jsval
  name :: jsval
  forced :: jsval
  channelCount :: jsval
  roles :: "jsstring list option"

record 'a media =
  tracks :: "'a track_scheme list option"

record ('a, 'b) resp =
  media :: "('a, 'b) media_scheme option"

text \<open>ToBoolean. A number token is falsy when it denotes zero or rounds to zero, that
  is when its value is at most \<open>2^-1075\<close>.\<close>

definition num_truthy :: "jsstring \<Rightarrow> bool" where
  "num_truthy tok =
     (let body = (if tok \<noteq> [] \<and> hd tok = 0x2D then tl tok else tok);
          mant = takeWhile (\<lambda>c. \<not> is_exp c) body;
          ex = drop 1 (dropWhile (\<lambda>c. \<not> is_exp c) body);
          ip = takeWhile (\<lambda>c. c \<noteq> 0x2E) mant;
          fp = drop 1 (dropWhile (\<lambda>c. c \<noteq> 0x2E) mant);
          m = dec_value (ip @ fp);
          ed = (if ex \<noteq> [] \<and> (hd ex = 0x2D \<or> hd ex = 0x2B) then tl ex else ex);
          e = (if ex \<noteq> [] \<and> hd ex = 0x2D then - int (dec_value ed) else int (dec_value ed))
              - int (length fp)
      in m \<noteq> 0 \<and> (0 \<le> e \<or> 10 ^ nat (- e) < m * 2 ^ 1075))"

fun truthy :: "jsval \<Rightarrow> bool" where
  "truthy Undefined = False"
| "truthy Null = False"
| "truthy (JBool b) = b"
| "truthy (JNum tok) = num_truthy tok"
| "truthy (JStr s) = (s \<noteq> [])"
| "truthy (JArr vs) = True"
| "truthy (JObj ps) = True"

text \<open>
  Reading one of the properties \<open>LANGUAGE\<close>, \<open>NAME\<close>, \<open>FORCED\<close>, \<open>CHANNELS\<close> of a
  decoded value: a TypeError on \<open>null\<close>, the own property of an object, and
  \<open>undefined\<close> otherwise, since no prototype has a property of these names.
\<close>

definition get_prop :: "jsval \<Rightarrow> jsstring \<Rightarrow> error + jsval" where
  "get_prop v k =
     (case v of
        Undefined \<Rightarrow> Inl TypeError
      | Null \<Rightarrow> Inl TypeError
      | JObj ps \<Rightarrow> Inr (case map_of ps k of Some x \<Rightarrow> x | None \<Rightarrow> Undefined)
      | _ \<Rightarrow> Inr Undefined)"

definition bindE :: "error + 'x \<Rightarrow> ('x \<Rightarrow> error + 'y) \<Rightarrow> error + 'y" where
  "bindE r f = (case r of Inl e \<Rightarrow> Inl e | Inr x \<Rightarrow> f x)"

definition is_marker :: "jsstring \<Rightarrow> bool" where
  "is_marker r = startsWith r (js ''xyzzy.obj.'')"

text \<open>
  The body of the loop over the tracks, for one track. The inner loop stops at the
  first role with the marker prefix: \<open>pre\<close> are the roles before it, at the indices
  below \<open>i\<close>. Every operation that can raise (\<open>decodeObject\<close>, the read of
  \<open>obj.LANGUAGE\<close>, the call of \<open>t.language.startsWith\<close> on a value that is not a
  string) comes before the first assignment to the track, so a track that raises is
  left as it was.
\<close>

definition updateTrack :: "env \<Rightarrow> 'a track_scheme \<Rightarrow> error + 'a track_scheme" where
  "updateTrack ev t =
     (case roles t of
        None \<Rightarrow> Inr t
      | Some rs \<Rightarrow>
          (case dropWhile (\<lambda>r. \<not> is_marker r) rs of
             [] \<Rightarrow> Inr t
           | r # post \<Rightarrow>
               bindE (decodeObject ev (drop 10 r)) (\<lambda>obj.
               bindE (get_prop obj (js ''LANGUAGE'')) (\<lambda>lang.
               bindE (if truthy lang then Inr (t\<lparr>language := lang\<rparr>)
                      else if truthy (language t) then
                        (case language t of
                           JStr s \<Rightarrow> Inr (if startsWith s (js ''und'')
                                           then t\<lparr>language := Null\<rparr> else t)
                         | _ \<Rightarrow> Inl TypeError)
                      else Inr t) (\<lambda>t1.
               bindE (get_prop obj (js ''NAME'')) (\<lambda>nm.
               bindE (get_prop obj (js ''FORCED'')) (\<lambda>fo.
               bindE (get_prop obj (js ''CHANNELS'')) (\<lambda>chn.
                 let pre = takeWhile (\<lambda>r. \<not> is_marker r) rs;
                     t2 = (if truthy nm then t1\<lparr>name := nm\<rparr> else t1);
                     rs3 = (if truthy fo then rs @ [js ''forced_subtitle''] else rs);
                     t3 = (if truthy fo then t2\<lparr>forced := JBool True\<rparr> else t2);
                     t4 = (if truthy chn then t3\<lparr>channelCount := chn\<rparr> else t3);
                     rs' = take (length pre) rs3 @ drop (length pre + 1) rs3
                 in Inr (t4\<lparr>roles := (if rs' = [] then None else Some rs')\<rparr>)))))))))"

text \<open>
  The loop \<open>for (t of resp.media.tracks)\<close>. The tracks are objects changed in place:
  when a track raises, the tracks before it keep their changes, and the ones after it
  are not visited. The result is the array as the loop leaves it and the exception, if
  any.
\<close>

fun updateTracks :: "env \<Rightarrow> 'a track_scheme list \<Rightarrow> 'a track_scheme list \<times> error option" where
  "updateTracks ev [] = ([], None)"
| "updateTracks ev (t # ts) =
     (case updateTrack ev t of
        Inl e \<Rightarrow> (t # ts, Some e)
      | Inr t' \<Rightarrow> (case updateTracks ev ts of (ts', r) \<Rightarrow> (t' # ts', r)))"

text \<open>\<open>doTracksUpdate\<close>: the message as the function leaves it, and the exception it
  raises, if any. Reading \<open>resp.media.tracks\<close> of a message without \<open>media\<close> is a
  TypeError, as is iterating over absent \<open>tracks\<close>.\<close>

definition doTracksUpdate ::
    "env \<Rightarrow> ('a, 'b, 'c) resp_scheme \<Rightarrow> ('a, 'b, 'c) resp_scheme \<times> error option" where
  "doTracksUpdate ev resp =
     (case media resp of
        None \<Rightarrow> (resp, Some TypeError)
      | Some m \<Rightarrow>
          (case tracks m of
             None \<Rightarrow> (resp, Some TypeError)
           | Some ts \<Rightarrow>
               (case updateTracks ev ts of
                  (ts', r) \<Rightarrow> (resp\<lparr>media := Some (m\<lparr>tracks := Some ts'\<rparr>)\<rparr>, r))))"

text \<open>\<open>tracksUpdater\<close>: the \<open>catch\<close> logs the exception and the function returns
  \<open>resp\<close>, the object the loop was changing.\<close>

definition tracksUpdater :: "env \<Rightarrow> ('a, 'b, 'c) resp_scheme \<Rightarrow> ('a, 'b, 'c) resp_scheme" where
  "tracksUpdater ev resp =
     (case media resp of
        None \<Rightarrow> resp
      | Some m \<Rightarrow>
          (case tracks m of
             None \<Rightarrow> resp
           | Some ts \<Rightarrow> fst (doTracksUpdate ev resp)))"

section \<open>Notions used to state the properties\<close>

text \<open>A line the rewriter changes: it starts with the rendition prefix and its parsed
  \<open>TYPE\<close> is \<open>SUBTITLES\<close> or \<open>AUDIO\<close>.\<close>

definition handled :: "jsstring \<Rightarrow> bool" where
  "handled line =
     (startsWith line (js ''#EXT-X-MEDIA:'') \<and>
      (case kv_get (parseAttrs [] (drop 13 line)) (js ''TYPE'') of
         None \<Rightarrow> False
       | Some t \<Rightarrow> val t = js ''SUBTITLES'' \<or> val t = js ''AUDIO''))"

text \<open>The group, the language and the dictionary key \<open>langTag\<close> computes from a line.\<close>

definition tag_gid :: "kvobj \<Rightarrow> jsstring" where
  "tag_gid kv = (case kv_get kv (js ''GROUP-ID'') of Some a \<Rightarrow> val a | None \<Rightarrow> js ''gid'')"

definition tag_lang :: "kvobj \<Rightarrow> jsstring" where
  "tag_lang kv = (case kv_get kv (js ''LANGUAGE'') of Some a \<Rightarrow> val a | None \<Rightarrow> js ''und'')"

definition tag_key :: "kvobj \<Rightarrow> jsstring" where
  "tag_key kv = tag_gid kv @ js ''.'' @ tag_lang kv"

text \<open>The count the state holds for a key, 0 when the key is absent.\<close>

definition seen :: "tagstate \<Rightarrow> jsstring \<Rightarrow> nat" where
  "seen state key = (case state key of None \<Rightarrow> 0 | Some n \<Rightarrow> n)"

text \<open>The suffix of the \<open>n\<close>-th repeat: \<open>-X\<close> and the \<open>n\<close>-th capital letter.\<close>

definition suffix_tag :: "nat \<Rightarrow> jsstring" where
  "suffix_tag n = js ''-'' @ fromCharCode [88, 64 + n]"

text \<open>
  A sequence of calls of \<open>langTag\<close> on one state, in the order of the lines, as the
  loop of \<open>manifestRewriter\<close> makes them: the tags returned, or the exception.
\<close>

fun langTags :: "tagstate \<Rightarrow> kvobj list \<Rightarrow> error + jsstring list" where
  "langTags state [] = Inr []"
| "langTags state (kv # kvs) =
     (case langTag state kv of
        Inl e \<Rightarrow> Inl e
      | Inr (state', tag) \<Rightarrow>
          (case langTags state' kvs of Inl e \<Rightarrow> Inl e | Inr tags \<Rightarrow> Inr (tag # tags)))"

text \<open>How many of the calls \<open>kvs\<close> have the dictionary key \<open>key\<close>.\<close>

definition occ :: "jsstring \<Rightarrow> kvobj list \<Rightarrow> nat" where
  "occ key kvs = length (filter (\<lambda>kv. tag_key kv = key) kvs)"

text \<open>The tag of a call whose key has been seen \<open>n\<close> times before: the language
  itself, or the language, \<open>-X\<close> and the \<open>n\<close>-th capital letter.\<close>

definition expected_tag :: "jsstring \<Rightarrow> nat \<Rightarrow> jsstring" where
  "expected_tag lang n = (if n = 0 then lang else lang @ js ''-X'' @ [char_of_code (64 + n)])"

text \<open>A track without a role that carries the marker prefix.\<close>

definition no_marker :: "'a track_scheme \<Rightarrow> bool" where
  "no_marker t = (case roles t of None \<Rightarrow> True | Some rs \<Rightarrow> \<forall>r \<in> set rs. \<not> is_marker r)"

text \<open>The payload of the first marker role of a track, if it has one.\<close>
definition first_payload :: "'a track_scheme \<Rightarrow> jsstring option" where
  "first_payload t =
     (case roles t of
        None \<Rightarrow> None
      | Some rs \<Rightarrow> (case dropWhile (\<lambda>r. \<not> is_marker r) rs of [] \<Rightarrow> None | r # post \<Rightarrow> Some (drop 10 r)))"


text \<open>
  A well-formed attribute: a key of one or more characters of \<open>[A-Za-z0-9_-]\<close>, and a
  value without a line terminator that, when quoted, has no double quote and, when
  bare, has no comma and does not start with a double quote. A well-formed attribute
  line is the attributes, each written as \<open>KEY="VALUE"\<close> or \<open>KEY=VALUE\<close>, separated by
  commas.
\<close>

definition wf_attr :: "jsstring \<times> attr \<Rightarrow> bool" where
  "wf_attr p =
     (fst p \<noteq> [] \<and> list_all is_keychar (fst p)
      \<and> \<not> list_ex is_line_terminator (val (snd p))
      \<and> (if quoted (snd p) then DQUOTE \<notin> set (val (snd p))
          else COMMA \<notin> set (val (snd p)) \<and> (val (snd p) = [] \<or> hd (val (snd p)) \<noteq> DQUOTE)))"

definition attr_line :: "kvobj \<Rightarrow> jsstring" where
  "attr_line items = join [COMMA] (map render_attr items)"

section \<open>Code units and numbers\<close>

lemma char_of_code_inj:
  "a < 65536 \<Longrightarrow> b < 65536 \<Longrightarrow> char_of_code a = char_of_code b \<Longrightarrow> a = b"
proof -
  assume a: "a < 65536" and b: "b < 65536" and e: "char_of_code a = char_of_code b"
  from e have "take_bit 16 a = take_bit 16 b" by (simp add: char_of_code_def word_of_nat_eq_iff)
  moreover have "take_bit 16 a = a" using a by (simp add: take_bit_nat_eq_self)
  moreover have "take_bit 16 b = b" using b by (simp add: take_bit_nat_eq_self)
  ultimately show ?thesis by simp
qed

lemma unat_char_of_code: "n < 65536 \<Longrightarrow> unat (char_of_code n) = n"
  by (simp add: char_of_code_def unat_of_nat)

lemma char_of_code_unat: "char_of_code (unat c) = c"
  by (simp add: char_of_code_def)

lemma unat_jschar_less: "unat (c :: jschar) < 65536"
  using unsigned_less [of c, where 'a = nat] by simp

lemma char_of_code_le:
  "n < 65536 \<Longrightarrow> (char_of_code n \<le> w) = (n \<le> unat w)"
  "n < 65536 \<Longrightarrow> (w \<le> char_of_code n) = (unat w \<le> n)"
  "n < 65536 \<Longrightarrow> (char_of_code n < w) = (n < unat w)"
  "n < 65536 \<Longrightarrow> (w < char_of_code n) = (unat w < n)"
  "n < 65536 \<Longrightarrow> (char_of_code n = w) = (n = unat w)"
  by (auto simp: word_le_nat_alt word_less_nat_alt unat_char_of_code char_of_code_unat)

section \<open>The language tag\<close>

lemma langTag_first:
  "seen state (tag_key kv) = 0 \<Longrightarrow>
   langTag state kv = Inr (state(tag_key kv \<mapsto> 1), tag_lang kv)"
  by (auto simp: langTag_def Let_def tag_key_def tag_gid_def tag_lang_def seen_def
      split: option.splits)

lemma langTag_repeat:
  "seen state (tag_key kv) = n \<Longrightarrow> 0 < n \<Longrightarrow> n \<le> 26 \<Longrightarrow>
   langTag state kv = Inr (state(tag_key kv \<mapsto> n + 1), tag_lang kv @ suffix_tag n)"
  by (auto simp: langTag_def Let_def tag_key_def tag_gid_def tag_lang_def seen_def suffix_tag_def
      split: option.splits)

lemma langTag_overflow:
  "26 < seen state (tag_key kv) \<Longrightarrow> langTag state kv = Inl ReferenceError"
  by (auto simp: langTag_def Let_def tag_key_def tag_gid_def tag_lang_def seen_def
      split: option.splits)

lemma suffix_tag_eq: "suffix_tag n = js ''-X'' @ [char_of_code (64 + n)]"
proof -
  have "char_of_code 88 = 0x58" by (simp add: char_of_code_def)
  then show ?thesis by (simp add: suffix_tag_def fromCharCode_def js_def)
qed

lemma langTag_result:
  "langTag state kv =
     (if 26 < seen state (tag_key kv) then Inl ReferenceError
      else Inr (state(tag_key kv \<mapsto> seen state (tag_key kv) + 1),
                expected_tag (tag_lang kv) (seen state (tag_key kv))))"
proof (cases "seen state (tag_key kv) = 0")
  case True
  then show ?thesis by (simp add: langTag_first expected_tag_def)
next
  case False
  show ?thesis
  proof (cases "26 < seen state (tag_key kv)")
    case True
    then show ?thesis by (simp add: langTag_overflow)
  next
    case le: False
    with False have "langTag state kv = Inr (state(tag_key kv \<mapsto> seen state (tag_key kv) + 1),
          tag_lang kv @ suffix_tag (seen state (tag_key kv)))"
      by (intro langTag_repeat) auto
    with False le show ?thesis by (simp add: expected_tag_def suffix_tag_eq)
  qed
qed

lemma seen_upd: "seen (state(k \<mapsto> n)) k' = (if k' = k then n else seen state k')"
  by (simp add: seen_def)

lemma occ_Cons: "occ k (kv # kvs) = (if tag_key kv = k then 1 else 0) + occ k kvs"
  by (simp add: occ_def)

lemma langTags_tags:
  "langTags state kvs = Inr tags \<Longrightarrow> i < length kvs \<Longrightarrow>
   tags ! i = expected_tag (tag_lang (kvs ! i))
                (seen state (tag_key (kvs ! i)) + occ (tag_key (kvs ! i)) (take i kvs))
   \<and> seen state (tag_key (kvs ! i)) + occ (tag_key (kvs ! i)) (take i kvs) \<le> 26"
proof (induction kvs arbitrary: state tags i)
  case Nil
  then show ?case by simp
next
  case (Cons kv kvs)
  let ?n = "seen state (tag_key kv)"
  let ?st = "state(tag_key kv \<mapsto> ?n + 1)"
  from Cons.prems(1) have le: "\<not> 26 < ?n"
    by (auto simp: langTag_result split: if_splits)
  with Cons.prems(1) obtain tags' where
    t': "langTags ?st kvs = Inr tags'" and
    eq: "tags = expected_tag (tag_lang kv) ?n # tags'"
    by (auto simp: langTag_result split: sum.splits)
  show ?case
  proof (cases i)
    case 0
    with eq le show ?thesis by (simp add: occ_def)
  next
    case (Suc j)
    with Cons.prems(2) have j: "j < length kvs" by simp
    let ?k = "tag_key (kvs ! j)"
    have s: "seen ?st ?k + occ ?k (take j kvs) = seen state ?k + occ ?k (kv # take j kvs)"
      by (simp add: seen_upd occ_Cons)
    note ih = Cons.IH [OF t' j, unfolded s]
    from ih have a: "tags' ! j = expected_tag (tag_lang (kvs ! j))
                       (seen state ?k + occ ?k (kv # take j kvs))"
      by (rule conjunct1)
    from ih have b: "seen state ?k + occ ?k (kv # take j kvs) \<le> 26"
      by (rule conjunct2)
    from a b show ?thesis using Suc eq by simp
  qed
qed

lemma langTags_length: "langTags state kvs = Inr tags \<Longrightarrow> length tags = length kvs"
  by (induction kvs arbitrary: state tags) (auto split: sum.splits prod.splits)

lemma langTags_total:
  "\<forall>k. seen state k + occ k kvs \<le> 27 \<Longrightarrow> \<exists>tags. langTags state kvs = Inr tags"
proof (induction kvs arbitrary: state)
  case Nil
  then show ?case by simp
next
  case (Cons kv kvs)
  let ?n = "seen state (tag_key kv)"
  let ?st = "state(tag_key kv \<mapsto> ?n + 1)"
  from Cons.prems have "?n + occ (tag_key kv) (kv # kvs) \<le> 27" by blast
  then have le: "\<not> 26 < ?n" by (simp add: occ_Cons)
  have "\<forall>k. seen ?st k + occ k kvs \<le> 27"
  proof
    fix k
    from Cons.prems have "seen state k + occ k (kv # kvs) \<le> 27" by blast
    then show "seen ?st k + occ k kvs \<le> 27" by (simp add: seen_upd occ_Cons split: if_splits)
  qed
  from Cons.IH [OF this] obtain tags where "langTags ?st kvs = Inr tags" by blast
  with le show ?case by (simp add: langTag_result)
qed

lemma expected_tag_inj:
  assumes "n \<le> 26" "m \<le> 26" "expected_tag lang n = expected_tag lang m"
  shows "n = m"
proof -
  have "64 + n < 65536" "64 + m < 65536" using assms by simp_all
  from char_of_code_inj [OF this] assms(3) show ?thesis
    by (auto simp: expected_tag_def split: if_splits)
qed


lemma occ_take_less:
  assumes "j < i" "i \<le> length kvs" "tag_key (kvs ! j) = k"
  shows "occ k (take j kvs) < occ k (take i kvs)"
proof -
  have j: "j < length (take i kvs)" using assms by simp
  have "take i kvs = take j (take i kvs) @ drop j (take i kvs)"
    by (rule append_take_drop_id [symmetric])
  also have "take j (take i kvs) = take j kvs" using assms by (simp add: min_def)
  also have "drop j (take i kvs) = kvs ! j # drop (Suc j) (take i kvs)"
    using Cons_nth_drop_Suc [OF j] assms by simp
  finally have "take i kvs = take j kvs @ kvs ! j # drop (Suc j) (take i kvs)" .
  then have "occ k (take i kvs) = occ k (take j kvs @ kvs ! j # drop (Suc j) (take i kvs))"
    by simp
  also have "\<dots> = occ k (take j kvs) + 1 + occ k (drop (Suc j) (take i kvs))"
    using assms(3) by (simp add: occ_def)
  finally show ?thesis by simp
qed

lemma occ_take_le: "occ k (take i kvs) \<le> occ k kvs"
proof -
  have "filter (\<lambda>kv. tag_key kv = k) kvs
        = filter (\<lambda>kv. tag_key kv = k) (take i kvs) @ filter (\<lambda>kv. tag_key kv = k) (drop i kvs)"
    by (metis append_take_drop_id filter_append)
  then show ?thesis by (simp add: occ_def)
qed

text \<open>
  Claim C4, as amended. The dictionary key is the string \<open>gid.lang\<close>. In a sequence
  of calls on a fresh state in which no key occurs more than 27 times, every call
  returns. A call whose key has not occurred before returns the language unchanged; a
  call whose key has occurred \<open>n\<close> times before, with \<open>n\<close> from 1 to 26, returns the
  language followed by \<open>-X\<close> and the \<open>n\<close>-th capital letter; and its tag differs
  from the tag of every earlier call with the same group and language.
\<close>

theorem langTag_sequence:
  assumes "\<forall>k. occ k kvs \<le> 27"
  shows "\<exists>tags. langTags Map.empty kvs = Inr tags \<and> length tags = length kvs \<and>
     (\<forall>i < length kvs.
        tags ! i = expected_tag (tag_lang (kvs ! i)) (occ (tag_key (kvs ! i)) (take i kvs))
        \<and> occ (tag_key (kvs ! i)) (take i kvs) \<le> 26
        \<and> (\<forall>j < i. tag_gid (kvs ! j) = tag_gid (kvs ! i) \<and> tag_lang (kvs ! j) = tag_lang (kvs ! i)
               \<longrightarrow> tags ! j \<noteq> tags ! i))"
proof -
  have "\<forall>k. seen Map.empty k + occ k kvs \<le> 27" using assms by (simp add: seen_def)
  from langTags_total [OF this] obtain tags where t: "langTags Map.empty kvs = Inr tags" by blast
  have tag: "tags ! i = expected_tag (tag_lang (kvs ! i)) (occ (tag_key (kvs ! i)) (take i kvs))
        \<and> occ (tag_key (kvs ! i)) (take i kvs) \<le> 26" if "i < length kvs" for i
    using langTags_tags [OF t that] by (simp add: seen_def)
  have uniq: "tags ! j \<noteq> tags ! i"
    if i: "i < length kvs" and j: "j < i"
      and same: "tag_gid (kvs ! j) = tag_gid (kvs ! i) \<and> tag_lang (kvs ! j) = tag_lang (kvs ! i)"
    for i j
  proof
    assume e: "tags ! j = tags ! i"
    from same have k: "tag_key (kvs ! j) = tag_key (kvs ! i)" by (simp add: tag_key_def)
    from j i have jl: "j < length kvs" by simp
    from occ_take_less [OF j _ k] i
    have lt: "occ (tag_key (kvs ! i)) (take j kvs) < occ (tag_key (kvs ! i)) (take i kvs)" by simp
    from tag [OF i] tag [OF jl] e same k
    have "expected_tag (tag_lang (kvs ! i)) (occ (tag_key (kvs ! i)) (take j kvs))
          = expected_tag (tag_lang (kvs ! i)) (occ (tag_key (kvs ! i)) (take i kvs))"
      by simp
    from expected_tag_inj [OF _ _ this] tag [OF i] tag [OF jl] k lt show False by simp
  qed
  from t langTags_length [OF t] tag uniq show ?thesis by blast
qed

text \<open>The three renditions of the example: group \<open>g\<close> with the languages \<open>en\<close>,
  \<open>en\<close> and \<open>de\<close> give \<open>en\<close>, \<open>en-XA\<close> and \<open>de\<close>.\<close>

definition kv_en :: kvobj where
  "kv_en = [(js ''TYPE'', \<lparr>val = js ''AUDIO'', quoted = False\<rparr>),
            (js ''GROUP-ID'', \<lparr>val = js ''g'', quoted = True\<rparr>),
            (js ''LANGUAGE'', \<lparr>val = js ''en'', quoted = True\<rparr>)]"

definition kv_de :: kvobj where
  "kv_de = [(js ''TYPE'', \<lparr>val = js ''AUDIO'', quoted = False\<rparr>),
            (js ''GROUP-ID'', \<lparr>val = js ''g'', quoted = True\<rparr>),
            (js ''LANGUAGE'', \<lparr>val = js ''de'', quoted = True\<rparr>)]"

lemma occ_le_length: "occ k kvs \<le> length kvs"
  by (simp add: occ_def)

theorem langTag_sequence_witness:
  "langTags Map.empty [kv_en, kv_en, kv_de] = Inr [js ''en'', js ''en-XA'', js ''de'']"
proof -
  have "\<forall>k. occ k [kv_en, kv_en, kv_de] \<le> 27"
  proof
    fix k
    have "occ k [kv_en, kv_en, kv_de] \<le> length [kv_en, kv_en, kv_de]" by (rule occ_le_length)
    then show "occ k [kv_en, kv_en, kv_de] \<le> 27" by simp
  qed
  from langTag_sequence [OF this] obtain tags where
    t: "langTags Map.empty [kv_en, kv_en, kv_de] = Inr tags" and l: "length tags = 3" and
    a: "\<forall>i < 3. tags ! i = expected_tag (tag_lang ([kv_en, kv_en, kv_de] ! i))
           (occ (tag_key ([kv_en, kv_en, kv_de] ! i)) (take i [kv_en, kv_en, kv_de]))"
    by auto
  have k: "tag_key kv_en \<noteq> tag_key kv_de" "tag_lang kv_en = js ''en''" "tag_lang kv_de = js ''de''"
    by code_simp+
  from a have "tags ! 0 = js ''en''" "tags ! 1 = js ''en-XA''" "tags ! 2 = js ''de''"
    using k by (simp_all add: expected_tag_def occ_def char_of_code_def js_def numeral_2_eq_2)
  with l have "tags = [js ''en'', js ''en-XA'', js ''de'']"
    by (cases tags; cases "tl tags"; cases "tl (tl tags)") (auto simp: numeral_2_eq_2)
  with t show ?thesis by simp
qed

text \<open>
  Claim C4 as stated fails. The groups \<open>a.b\<close> and \<open>a\<close> with the languages \<open>c\<close> and
  \<open>b.c\<close> are two different pairs with the same dictionary key \<open>a.b.c\<close>: the second
  line is the first occurrence of its pair, and its language is rewritten to
  \<open>b.c-XA\<close>.
\<close>

definition kv_a :: kvobj where
  "kv_a = [(js ''GROUP-ID'', \<lparr>val = js ''a.b'', quoted = True\<rparr>),
           (js ''LANGUAGE'', \<lparr>val = js ''c'', quoted = True\<rparr>)]"

definition kv_b :: kvobj where
  "kv_b = [(js ''GROUP-ID'', \<lparr>val = js ''a'', quoted = True\<rparr>),
           (js ''LANGUAGE'', \<lparr>val = js ''b.c'', quoted = True\<rparr>)]"

theorem first_occurrence_suffixed_counterexample:
  "langTags Map.empty [kv_a, kv_b] = Inr [js ''c'', js ''b.c-XA'']
   \<and> (tag_gid kv_a, tag_lang kv_a) \<noteq> (tag_gid kv_b, tag_lang kv_b)
   \<and> tag_lang kv_b = js ''b.c''
   \<and> manifestRewriter Browser
        (js ''#EXT-X-MEDIA:TYPE=AUDIO,GROUP-ID=\"a.b\",LANGUAGE=\"c\"'' @ [LF]
         @ js ''#EXT-X-MEDIA:TYPE=AUDIO,GROUP-ID=\"a\",LANGUAGE=\"b.c\"'')
      = Inr (js ''#EXT-X-MEDIA:TYPE=AUDIO,GROUP-ID=\"a.b\",LANGUAGE=\"c\",CHARACTERISTICS=\"xyzzy.obj.eyJMQU5HVUFHRSI6ImMifQ==\"'' @ [LF]
         @ js ''#EXT-X-MEDIA:TYPE=AUDIO,GROUP-ID=\"a\",LANGUAGE=\"b.c-XA\",CHARACTERISTICS=\"xyzzy.obj.eyJMQU5HVUFHRSI6ImIuYyJ9\"'')"
  by code_simp

text \<open>
  Claim C3. The claim does not hold of the code: the 28th occurrence of a key, for which
  \<open>tagSeq\<close> is 27, raises a ReferenceError instead of returning a tag.
\<close>

theorem langTag_overflow_raises:
  "langTags Map.empty (replicate 28 kv_en) = Inl ReferenceError
   \<and> langTag (Map.empty(tag_key kv_en \<mapsto> 27)) kv_en = Inl ReferenceError"
proof -
  have "langTags Map.empty (replicate 28 kv_en) = Inl ReferenceError" by code_simp
  moreover have "langTag (Map.empty(tag_key kv_en \<mapsto> 27)) kv_en = Inl ReferenceError"
    by (rule langTag_overflow) (simp add: seen_def)
  ultimately show ?thesis by simp
qed


section \<open>Parsing and serializing an attribute line\<close>

lemma not_keychar_EQUALS: "\<not> is_keychar EQUALS"
  by (simp add: is_keychar_def is_alnum_def is_digit_def)

lemma not_space_COMMA: "\<not> is_space COMMA"
  by (simp add: is_space_def)

lemma not_lt_punct:
  "\<not> is_line_terminator COMMA" "\<not> is_line_terminator EQUALS" "\<not> is_line_terminator DQUOTE"
  by (simp_all add: is_line_terminator_def)

lemma keychar_not_lt: "is_keychar c \<Longrightarrow> \<not> is_line_terminator c"
  by (auto simp: is_keychar_def is_alnum_def is_digit_def is_line_terminator_def)

lemma key_prefix:
  assumes "list_all is_keychar k"
  shows "takeWhile is_keychar (k @ EQUALS # r) = k" "dropWhile is_keychar (k @ EQUALS # r) = EQUALS # r"
  using assms not_keychar_EQUALS by (simp_all add: list_all_iff takeWhile_append2 dropWhile_append2)

text \<open>What follows an attribute in a line is nothing, or a comma and the rest.\<close>

definition after_comma :: "jsstring \<Rightarrow> jsstring" where
  "after_comma t = (if t = [] then [] else tl t)"

lemma until_char:
  assumes "x \<notin> set v"
  shows "takeWhile (\<lambda>c. c \<noteq> x) (v @ x # t) = v"
    and "dropWhile (\<lambda>c. c \<noteq> x) (v @ x # t) = x # t"
    and "takeWhile (\<lambda>c. c \<noteq> x) v = v"
    and "dropWhile (\<lambda>c. c \<noteq> x) v = []"
proof -
  have "takeWhile (\<lambda>c. c \<noteq> x) (v @ x # t) = v @ takeWhile (\<lambda>c. c \<noteq> x) (x # t)"
    by (rule takeWhile_append2) (use assms in auto)
  then show "takeWhile (\<lambda>c. c \<noteq> x) (v @ x # t) = v" by simp
  have "dropWhile (\<lambda>c. c \<noteq> x) (v @ x # t) = dropWhile (\<lambda>c. c \<noteq> x) (x # t)"
    by (rule dropWhile_append2) (use assms in auto)
  then show "dropWhile (\<lambda>c. c \<noteq> x) (v @ x # t) = x # t" by simp
  show "takeWhile (\<lambda>c. c \<noteq> x) v = v" using assms by (auto simp: takeWhile_eq_all_conv)
  show "dropWhile (\<lambda>c. c \<noteq> x) v = []" using assms by auto
qed

lemma match_quoted_render:
  assumes "k \<noteq> []" "list_all is_keychar k" "DQUOTE \<notin> set v"
    and "t = [] \<or> hd t = COMMA" and "\<not> list_ex is_line_terminator (after_comma t)"
  shows "match_quoted (k @ EQUALS # DQUOTE # v @ DQUOTE # t) = Some (k, v, after_comma t)"
proof -
  have 1: "takeWhile is_keychar (k @ EQUALS # DQUOTE # v @ DQUOTE # t) = k"
    and 2: "dropWhile is_keychar (k @ EQUALS # DQUOTE # v @ DQUOTE # t)
            = EQUALS # DQUOTE # v @ DQUOTE # t"
    using key_prefix [OF assms(2)] by simp_all
  note 3 = until_char(1,2) [OF assms(3)]
  show ?thesis
  proof (cases t)
    case Nil
    show ?thesis
      unfolding match_quoted_def Let_def 1 2
      using assms(1) by (simp add: startsWith_def 3 Nil after_comma_def)
  next
    case (Cons c t')
    with assms(4) have c: "c = COMMA" by simp
    from assms(5) have "\<not> list_ex is_line_terminator t'" by (simp add: after_comma_def Cons)
    then show ?thesis
      unfolding match_quoted_def Let_def 1 2
      using assms(1) not_space_COMMA by (simp add: startsWith_def 3 Cons c after_comma_def)
  qed
qed

lemma match_quoted_bare_None:
  assumes "list_all is_keychar k" "v = [] \<or> hd v \<noteq> DQUOTE"
    and "t = [] \<or> hd t = COMMA"
  shows "match_quoted (k @ EQUALS # v @ t) = None"
proof -
  have 2: "dropWhile is_keychar (k @ EQUALS # v @ t) = EQUALS # v @ t"
    using key_prefix [OF assms(1)] by simp
  have "take 2 (EQUALS # v @ t) \<noteq> [EQUALS, DQUOTE]"
    using assms(2,3) by (cases v; cases t) auto
  then have "\<not> startsWith (EQUALS # v @ t) [EQUALS, DQUOTE]"
    by (simp add: startsWith_def)
  then show ?thesis unfolding match_quoted_def Let_def 2 by simp
qed

lemma match_bare_render:
  assumes "k \<noteq> []" "list_all is_keychar k" "COMMA \<notin> set v"
    and "t = [] \<or> hd t = COMMA" and "\<not> list_ex is_line_terminator (after_comma t)"
  shows "match_bare (k @ EQUALS # v @ t) = Some (k, v, after_comma t)"
proof -
  have 1: "takeWhile is_keychar (k @ EQUALS # v @ t) = k"
    and 2: "dropWhile is_keychar (k @ EQUALS # v @ t) = EQUALS # v @ t"
    using key_prefix [OF assms(2)] by simp_all
  note 3 = until_char [OF assms(3)]
  show ?thesis
  proof (cases t)
    case Nil
    show ?thesis
      unfolding match_bare_def Let_def 1 2
      using assms(1) by (simp add: startsWith_def 3 Nil after_comma_def)
  next
    case (Cons c t')
    with assms(4) have c: "c = COMMA" by simp
    from assms(5) have "\<not> list_ex is_line_terminator t'" by (simp add: after_comma_def Cons)
    then show ?thesis
      unfolding match_bare_def Let_def 1 2
      using assms(1) by (simp add: startsWith_def 3 Cons c after_comma_def)
  qed
qed

lemma match_attr_render:
  assumes "wf_attr p" and "t = [] \<or> hd t = COMMA"
    and "\<not> list_ex is_line_terminator (after_comma t)"
  shows "match_attr (render_attr p @ t) = Some (fst p, snd p, after_comma t)"
proof (cases "quoted (snd p)")
  case True
  with assms have "match_quoted (fst p @ EQUALS # DQUOTE # val (snd p) @ DQUOTE # t)
      = Some (fst p, val (snd p), after_comma t)"
    by (intro match_quoted_render) (auto simp: wf_attr_def)
  with True show ?thesis by (simp add: match_attr_def render_attr_def)
next
  case False
  with assms have "match_quoted (fst p @ EQUALS # val (snd p) @ t) = None"
    by (intro match_quoted_bare_None) (auto simp: wf_attr_def)
  moreover from False assms have "match_bare (fst p @ EQUALS # val (snd p) @ t)
      = Some (fst p, val (snd p), after_comma t)"
    by (intro match_bare_render) (auto simp: wf_attr_def)
  ultimately show ?thesis using False by (simp add: match_attr_def render_attr_def)
qed


lemma render_attr_no_lt:
  "wf_attr p \<Longrightarrow> \<not> list_ex is_line_terminator (render_attr p)"
  using not_lt_punct
  by (auto simp: wf_attr_def render_attr_def list_ex_iff list_all_iff dest: keychar_not_lt)

lemma attr_line_no_lt:
  "list_all wf_attr items \<Longrightarrow> \<not> list_ex is_line_terminator (attr_line items)"
proof (induction items rule: induct_list012)
  case 1
  then show ?case by (simp add: attr_line_def)
next
  case (2 p)
  then show ?case by (simp add: attr_line_def render_attr_no_lt)
next
  case (3 p q items)
  then show ?case using not_lt_punct by (simp add: attr_line_def render_attr_no_lt)
qed

lemma parseAttrs_attr_line:
  "list_all wf_attr items \<Longrightarrow>
   parseAttrs kv (attr_line items) = foldl (\<lambda>kv p. kv_set kv (fst p) (snd p)) kv items"
proof (induction items arbitrary: kv rule: induct_list012)
  case 1
  then show ?case by (simp add: attr_line_def parseAttrs.simps)
next
  case (2 p)
  then have "match_attr (render_attr p @ []) = Some (fst p, snd p, after_comma [])"
    by (intro match_attr_render) (simp_all add: after_comma_def)
  moreover have "render_attr p \<noteq> []" by (simp add: render_attr_def)
  ultimately show ?case
    by (simp add: attr_line_def parseAttrs.simps [of kv "render_attr p"] after_comma_def
        parseAttrs.simps [of _ "[]"])
next
  case (3 p q items)
  let ?t = "COMMA # attr_line (q # items)"
  from 3(3) have wq: "list_all wf_attr (q # items)" and wp: "wf_attr p" by simp_all
  from attr_line_no_lt [OF wq] have nl: "\<not> list_ex is_line_terminator (after_comma ?t)"
    by (simp add: after_comma_def)
  have m: "match_attr (render_attr p @ ?t) = Some (fst p, snd p, after_comma ?t)"
    using wp nl by (intro match_attr_render) simp_all
  have l: "attr_line (p # q # items) = render_attr p @ ?t"
    by (simp add: attr_line_def)
  have ne: "render_attr p @ ?t \<noteq> []" by simp
  have "parseAttrs kv (attr_line (p # q # items))
        = parseAttrs (kv_set kv (fst p) (snd p)) (attr_line (q # items))"
    unfolding l by (subst parseAttrs.simps) (simp add: m after_comma_def)
  also have "\<dots> = foldl (\<lambda>kv p. kv_set kv (fst p) (snd p)) (kv_set kv (fst p) (snd p)) (q # items)"
    by (rule 3(2) [OF wq])
  finally show ?case by simp
qed

lemma update_fresh: "k \<notin> fst ` set kv \<Longrightarrow> AList.update k a kv = kv @ [(k, a)]"
  by (induction kv) auto

lemma foldl_kv_set_fresh:
  "distinct (map fst (kv @ items)) \<Longrightarrow> js ''__proto__'' \<notin> fst ` set items \<Longrightarrow>
   foldl (\<lambda>kv p. kv_set kv (fst p) (snd p)) kv items = kv @ items"
proof (induction items arbitrary: kv)
  case Nil
  then show ?case by simp
next
  case (Cons p items)
  from Cons.prems have "kv_set kv (fst p) (snd p) = kv @ [p]"
    by (auto simp: kv_set_def update_fresh)
  moreover from Cons.prems have "distinct (map fst ((kv @ [p]) @ items))" by auto
  moreover from Cons.prems have "js ''__proto__'' \<notin> fst ` set items" by auto
  ultimately show ?case using Cons.IH [of "kv @ [p]"] by simp
qed

lemma entries_no_index:
  "\<forall>p \<in> set ps. \<not> is_array_index (fst p) \<Longrightarrow> entries ps = ps"
  by (simp add: entries_def filter_empty_conv)

text \<open>
  Claim C5, as amended. For a well-formed attribute line whose keys are pairwise
  distinct, none of them \<open>__proto__\<close> or an array index, serializing the parsed
  attributes gives the line back, character by character.
\<close>

theorem serialize_parse_roundtrip:
  assumes "list_all wf_attr items" and "distinct (map fst items)"
    and "\<forall>p \<in> set items. fst p \<noteq> js ''__proto__'' \<and> \<not> is_array_index (fst p)"
  shows "serializeAttrs (parseAttrs [] (attr_line items)) = attr_line items"
proof -
  have "parseAttrs [] (attr_line items) = foldl (\<lambda>kv p. kv_set kv (fst p) (snd p)) [] items"
    by (rule parseAttrs_attr_line [OF assms(1)])
  also have "\<dots> = items"
  proof -
    from assms(3) have "js ''__proto__'' \<notin> fst ` set items" by force
    with foldl_kv_set_fresh [of "[]" items] assms(2) show ?thesis by simp
  qed
  finally show ?thesis using assms(3) by (simp add: serializeAttrs_def entries_no_index attr_line_def)
qed


definition ok_items :: kvobj where
  "ok_items = [(js ''TYPE'', \<lparr>val = js ''AUDIO'', quoted = False\<rparr>),
               (js ''GROUP-ID'', \<lparr>val = js ''audio/ac-3'', quoted = True\<rparr>),
               (js ''NAME'', \<lparr>val = js ''English - 5.1 Channel'', quoted = True\<rparr>),
               (js ''AUTOSELECT'', \<lparr>val = js ''YES'', quoted = False\<rparr>)]"

theorem serialize_parse_roundtrip_witness:
  "serializeAttrs (parseAttrs []
      (js ''TYPE=AUDIO,GROUP-ID=\"audio/ac-3\",NAME=\"English - 5.1 Channel\",AUTOSELECT=YES''))
   = js ''TYPE=AUDIO,GROUP-ID=\"audio/ac-3\",NAME=\"English - 5.1 Channel\",AUTOSELECT=YES''"
proof -
  have 1: "list_all wf_attr ok_items" by code_simp
  have 2: "distinct (map fst ok_items)" by code_simp
  have 3: "\<forall>p \<in> set ok_items. fst p \<noteq> js ''__proto__'' \<and> \<not> is_array_index (fst p)" by code_simp
  have 4: "attr_line ok_items = js ''TYPE=AUDIO,GROUP-ID=\"audio/ac-3\",NAME=\"English - 5.1 Channel\",AUTOSELECT=YES''"
    by code_simp
  from serialize_parse_roundtrip [OF 1 2 3] show ?thesis unfolding 4 .
qed

text \<open>
  Claim C5 as stated fails: a repeated key keeps one entry, at the place of the first
  occurrence and with the last value, so the line is not reproduced.
\<close>

definition dup_items :: kvobj where
  "dup_items = [(js ''TYPE'', \<lparr>val = js ''AUDIO'', quoted = False\<rparr>),
                (js ''NAME'', \<lparr>val = js ''a'', quoted = True\<rparr>),
                (js ''NAME'', \<lparr>val = js ''b'', quoted = True\<rparr>)]"

theorem duplicate_key_not_reproduced_counterexample:
  "list_all wf_attr dup_items
   \<and> attr_line dup_items = js ''TYPE=AUDIO,NAME=\"a\",NAME=\"b\"''
   \<and> serializeAttrs (parseAttrs [] (js ''TYPE=AUDIO,NAME=\"a\",NAME=\"b\"'')) = js ''TYPE=AUDIO,NAME=\"b\"''"
  by code_simp

section \<open>Lines the rewriter passes through\<close>

lemma rewriteLine_unhandled:
  "\<not> handled line \<Longrightarrow> rewriteLine ev state line = Inr (state, line)"
  by (auto simp: rewriteLine_def handled_def Let_def split: option.splits)

lemma rewriteLines_length:
  "rewriteLines ev state ls = Inr ls' \<Longrightarrow> length ls' = length ls"
  by (induction ls arbitrary: state ls') (auto split: sum.splits prod.splits)

lemma rewriteLines_unhandled:
  "rewriteLines ev state ls = Inr ls' \<Longrightarrow> i < length ls \<Longrightarrow> \<not> handled (ls ! i) \<Longrightarrow>
   ls' ! i = ls ! i"
proof (induction ls arbitrary: state ls' i)
  case Nil
  then show ?case by simp
next
  case (Cons l ls)
  from Cons.prems(1) obtain st1 l1 ls1 where
    l1: "rewriteLine ev state l = Inr (st1, l1)" and
    ls1: "rewriteLines ev st1 ls = Inr ls1" and
    eq: "ls' = l1 # ls1"
    by (auto split: sum.splits prod.splits)
  show ?case
  proof (cases i)
    case 0
    with Cons.prems(3) l1 eq show ?thesis by (simp add: rewriteLine_unhandled)
  next
    case (Suc j)
    with Cons.prems Cons.IH [OF ls1, of j] eq show ?thesis by simp
  qed
qed


text \<open>
  Claim C7. When \<open>manifestRewriter\<close> returns, its result is the array of lines joined
  by line feeds; that array has as many lines as the input, and every line that does
  not start with \<open>#EXT-X-MEDIA:\<close>, and every rendition line whose \<open>TYPE\<close> is absent or
  is neither \<open>AUDIO\<close> nor \<open>SUBTITLES\<close>, is at its index unchanged.
\<close>

theorem passthrough_lines_unchanged:
  assumes "manifestRewriter ev m3u8 = Inr out"
  shows "\<exists>lines'. rewriteLines ev Map.empty (split_lines m3u8) = Inr lines'
           \<and> out = join [LF] lines'
           \<and> length lines' = length (split_lines m3u8)
           \<and> (\<forall>i < length (split_lines m3u8).
                 \<not> handled (split_lines m3u8 ! i) \<longrightarrow> lines' ! i = split_lines m3u8 ! i)"
proof -
  from assms obtain lines' where
    r: "rewriteLines ev Map.empty (split_lines m3u8) = Inr lines'" and o: "out = join [LF] lines'"
    by (auto simp: manifestRewriter_def split: sum.splits)
  show ?thesis
    using r o rewriteLines_length [OF r] rewriteLines_unhandled [OF r] by auto
qed

definition ex_manifest :: jsstring where
  "ex_manifest =
     js ''#EXTM3U'' @ [CR, LF] @ js ''#EXT-X-MEDIA:TYPE=VIDEO,GROUP-ID=\"v\"'' @ [LF]
     @ js ''#EXT-X-MEDIA:TYPE=AUDIO,GROUP-ID=\"g\",LANGUAGE=\"en\"''"

lemma ex_manifest_rewritten:
  "manifestRewriter Browser ex_manifest =
     Inr (js ''#EXTM3U'' @ [LF] @ js ''#EXT-X-MEDIA:TYPE=VIDEO,GROUP-ID=\"v\"'' @ [LF]
          @ js ''#EXT-X-MEDIA:TYPE=AUDIO,GROUP-ID=\"g\",LANGUAGE=\"en\",CHARACTERISTICS=\"xyzzy.obj.eyJMQU5HVUFHRSI6ImVuIn0=\"'')"
  by code_simp

lemma ex_manifest_lines:
  "split_lines ex_manifest =
     [js ''#EXTM3U'', js ''#EXT-X-MEDIA:TYPE=VIDEO,GROUP-ID=\"v\"'',
      js ''#EXT-X-MEDIA:TYPE=AUDIO,GROUP-ID=\"g\",LANGUAGE=\"en\"'']"
  by code_simp

lemma ex_manifest_unhandled:
  "\<not> handled (js ''#EXTM3U'')"
  "\<not> handled (js ''#EXT-X-MEDIA:TYPE=VIDEO,GROUP-ID=\"v\"'')"
  by code_simp+

theorem passthrough_lines_unchanged_witness:
  "manifestRewriter Browser ex_manifest =
     Inr (js ''#EXTM3U'' @ [LF] @ js ''#EXT-X-MEDIA:TYPE=VIDEO,GROUP-ID=\"v\"'' @ [LF]
          @ js ''#EXT-X-MEDIA:TYPE=AUDIO,GROUP-ID=\"g\",LANGUAGE=\"en\",CHARACTERISTICS=\"xyzzy.obj.eyJMQU5HVUFHRSI6ImVuIn0=\"'')
   \<and> (\<exists>lines'. rewriteLines Browser Map.empty (split_lines ex_manifest) = Inr lines'
          \<and> length lines' = 3
          \<and> lines' ! 0 = js ''#EXTM3U''
          \<and> lines' ! 1 = js ''#EXT-X-MEDIA:TYPE=VIDEO,GROUP-ID=\"v\"'')"
proof -
  obtain lines' where
    l: "rewriteLines Browser Map.empty (split_lines ex_manifest) = Inr lines'"
       "length lines' = length (split_lines ex_manifest)"
       "\<forall>i < length (split_lines ex_manifest).
          \<not> handled (split_lines ex_manifest ! i) \<longrightarrow> lines' ! i = split_lines ex_manifest ! i"
    using passthrough_lines_unchanged [OF ex_manifest_rewritten] by blast
  from l(3) have
    "lines' ! 0 = js ''#EXTM3U''"
    "lines' ! 1 = js ''#EXT-X-MEDIA:TYPE=VIDEO,GROUP-ID=\"v\"''"
    using ex_manifest_unhandled by (simp_all add: ex_manifest_lines)
  with l(1,2) ex_manifest_rewritten show ?thesis by (simp add: ex_manifest_lines)
qed

section \<open>Line separators\<close>







section \<open>The track updater\<close>

lemma updateTrack_no_marker: "no_marker t \<Longrightarrow> updateTrack ev t = Inr t"
proof (cases "roles t")
  case None
  then show ?thesis by (simp add: updateTrack_def)
next
  case (Some rs)
  assume "no_marker t"
  with Some have d: "dropWhile (\<lambda>r. \<not> is_marker r) rs = []"
    by (simp add: no_marker_def)
  show ?thesis by (simp add: updateTrack_def Some d)
qed


lemma tracksUpdater_tracks:
  "media resp = Some m \<Longrightarrow> tracks m = Some ts \<Longrightarrow>
   tracksUpdater ev resp = resp\<lparr>media := Some (m\<lparr>tracks := Some (fst (updateTracks ev ts))\<rparr>)\<rparr>"
  by (simp add: tracksUpdater_def doTracksUpdate_def split: prod.splits)

lemma updateTrack_undecodable:
  "first_payload t = Some p \<Longrightarrow> decodeObject ev p = Inl e \<Longrightarrow> updateTrack ev t = Inl e"
proof -
  assume fp: "first_payload t = Some p" and dec: "decodeObject ev p = Inl e"
  from fp obtain rs where rs: "roles t = Some rs"
    by (cases "roles t") (auto simp: first_payload_def)
  from fp rs obtain r post where d: "dropWhile (\<lambda>r. \<not> is_marker r) rs = r # post"
    and p: "p = drop 10 r"
    by (cases "dropWhile (\<lambda>r. \<not> is_marker r) rs") (auto simp: first_payload_def)
  from dec p have "decodeObject ev (drop 10 r) = Inl e" by simp
  then show ?thesis by (simp add: updateTrack_def rs d bindE_def)
qed

lemma updateTracks_stop:
  "updateTracks ev pre = (pre', None) \<Longrightarrow> updateTrack ev t = Inl e \<Longrightarrow>
   updateTracks ev (pre @ t # post) = (pre' @ t # post, Some e)"
  by (induction pre arbitrary: pre') (auto split: sum.splits prod.splits)

text \<open>A track with a single marker role has none left once it is updated, so that a
  second update leaves it as it is.\<close>

lemma bindE_InrE:
  assumes "bindE r f = Inr y"
  obtains x where "r = Inr x" and "f x = Inr y"
  using assms by (cases r) (simp_all add: bindE_def)

lemma updateTrack_roles:
  assumes u: "updateTrack ev t = Inr t'" and rs: "roles t = Some rs"
    and d: "dropWhile (\<lambda>r. \<not> is_marker r) rs = r # post"
  shows "\<exists>rs3. (rs3 = rs \<or> rs3 = rs @ [js ''forced_subtitle''])
           \<and> roles t' = (let n = length (takeWhile (\<lambda>r. \<not> is_marker r) rs);
                              rs' = take n rs3 @ drop (n + 1) rs3
                          in if rs' = [] then None else Some rs')"
  using u
  apply (simp only: updateTrack_def rs d option.case list.case)
  apply (elim bindE_InrE)
  apply (simp only: Let_def sum.inject)
  subgoal for obj lang t1 nm fo chn
    apply (drule arg_cong [of _ _ roles])
    apply (cases "truthy fo")
     apply (simp only: if_True)
     apply (rule exI [of _ "rs @ [js ''forced_subtitle'']"])
     apply (rule conjI, rule disjI2, rule refl)
     apply (rule trans [OF sym], assumption)
     apply simp
    apply (simp only: if_False)
    apply (rule exI [of _ rs])
    apply (rule conjI, rule disjI1, rule refl)
    apply (rule trans [OF sym], assumption)
    apply simp
    done
  done

lemma not_marker_forced: "\<not> is_marker (js ''forced_subtitle'')"
  by code_simp

lemma updateTrack_removes_marker:
  assumes u: "updateTrack ev t = Inr t'" and rs: "roles t = Some rs"
    and one: "length (filter is_marker rs) \<le> 1"
  shows "no_marker t'"
proof (cases "dropWhile (\<lambda>r. \<not> is_marker r) rs")
  case Nil
  with u rs have "t' = t" by (simp add: updateTrack_def)
  moreover from Nil have "\<forall>r \<in> set rs. \<not> is_marker r" by simp
  ultimately show ?thesis using rs by (simp add: no_marker_def)
next
  case (Cons r post)
  define pre where "pre = takeWhile (\<lambda>r. \<not> is_marker r) rs"
  have split: "rs = pre @ r # post"
    using takeWhile_dropWhile_id [of "\<lambda>r. \<not> is_marker r" rs] Cons by (simp add: pre_def)
  have pre: "\<forall>x \<in> set pre. \<not> is_marker x"
    unfolding pre_def by (auto dest: set_takeWhileD)
  have r: "is_marker r"
    using hd_dropWhile [of "\<lambda>r. \<not> is_marker r" rs] Cons by simp
  from pre have fp: "filter is_marker pre = []" by (simp add: filter_empty_conv)
  from one r fp have "filter is_marker post = []" by (simp add: split)
  then have post: "\<forall>x \<in> set post. \<not> is_marker x" by (simp add: filter_empty_conv)
  from updateTrack_roles [OF u rs Cons] obtain rs3 where
    c: "rs3 = rs \<or> rs3 = rs @ [js ''forced_subtitle'']"
    and t': "roles t' = (let n = length pre; rs' = take n rs3 @ drop (n + 1) rs3
                          in if rs' = [] then None else Some rs')"
    unfolding pre_def by blast
  from c show ?thesis
  proof
    assume "rs3 = rs"
    then have "take (length pre) rs3 @ drop (length pre + 1) rs3 = pre @ post"
      by (simp add: split)
    with t' have "roles t' = (if pre @ post = [] then None else Some (pre @ post))"
      by (simp only: Let_def)
    with pre post show ?thesis by (auto simp: no_marker_def split: if_splits)
  next
    assume "rs3 = rs @ [js ''forced_subtitle'']"
    then have "take (length pre) rs3 @ drop (length pre + 1) rs3
                 = pre @ post @ [js ''forced_subtitle'']"
      by (simp add: split)
    with t' have "roles t' = Some (pre @ post @ [js ''forced_subtitle''])"
      by (simp only: Let_def) simp
    with pre post not_marker_forced show ?thesis by (auto simp: no_marker_def)
  qed
qed

lemma updateTrack_twice:
  assumes "updateTrack ev t = Inr t'" and "roles t = Some rs"
    and "length (filter is_marker rs) \<le> 1"
  shows "updateTrack ev t' = Inr t'"
  by (rule updateTrack_no_marker) (rule updateTrack_removes_marker [OF assms])





text \<open>
  Claim C6, as amended. When the first marker role of a track has a payload that
  \<open>decodeObject\<close> rejects, \<open>tracksUpdater\<close> returns a message, raising nothing; in it
  that track is unchanged, the tracks before it are updated as usual, and the tracks
  after it are left as they were: the \<open>try\<close> block encloses the whole loop.
\<close>

theorem undecodable_track_stops_update:
  assumes "media resp = Some m" and "tracks m = Some (pre @ t # post)"
    and "first_payload t = Some p" and "decodeObject ev p = Inl e"
    and "updateTracks ev pre = (pre', None)"
  shows "tracksUpdater ev resp = resp\<lparr>media := Some (m\<lparr>tracks := Some (pre' @ t # post)\<rparr>)\<rparr>"
  using assms
  by (simp add: tracksUpdater_tracks updateTracks_stop [OF _ updateTrack_undecodable])

definition bad_track :: track where
  "bad_track = \<lparr>language = JStr (js ''und''), name = Undefined, forced = Undefined,
      channelCount = Undefined, roles = Some [js ''xyzzy.obj.!'']\<rparr>"

definition good_track :: track where
  "good_track = \<lparr>language = JStr (js ''en-XA''), name = Undefined, forced = Undefined,
      channelCount = Undefined, roles = Some [js ''xyzzy.obj.eyJMQU5HVUFHRSI6ImVuIn0='']\<rparr>"

definition good_track_updated :: track where
  "good_track_updated = \<lparr>language = JStr (js ''en''), name = Undefined, forced = Undefined,
      channelCount = Undefined, roles = None\<rparr>"

lemma good_track_update: "updateTrack Browser good_track = Inr good_track_updated"
  by code_simp
lemma bad_payload_rejected: "decodeObject Browser (js ''!'') = Inl InvalidCharacterError"
  by code_simp
lemma bad_track_payload: "first_payload bad_track = Some (js ''!'')"
  by code_simp
lemma good_track_changed: "good_track_updated \<noteq> good_track"
  by (simp add: good_track_updated_def good_track_def)

theorem undecodable_track_stops_update_witness:
  "tracksUpdater Browser \<lparr>media = Some \<lparr>tracks = Some [good_track, bad_track, good_track]\<rparr>\<rparr>
     = \<lparr>media = Some \<lparr>tracks = Some [good_track_updated, bad_track, good_track]\<rparr>\<rparr>"
proof -
  have "updateTracks Browser [good_track] = ([good_track_updated], None)" by (simp add: good_track_update)
  from undecodable_track_stops_update [of "\<lparr>media = Some \<lparr>tracks = Some [good_track, bad_track, good_track]\<rparr>\<rparr>"
      "\<lparr>tracks = Some [good_track, bad_track, good_track]\<rparr>" "[good_track]" bad_track "[good_track]",
      OF _ _ bad_track_payload bad_payload_rejected this]
  show ?thesis by simp
qed

text \<open>
  Claim C6 as stated fails in its last part: a track after the undecodable one is not
  processed. Behind a track whose payload is \<open>!\<close>, a track with a valid token stays as
  it was, while the same track alone in a message is updated.
\<close>

theorem later_tracks_unprocessed_counterexample:
  "tracksUpdater Browser \<lparr>media = Some \<lparr>tracks = Some [bad_track, good_track]\<rparr>\<rparr>
     = \<lparr>media = Some \<lparr>tracks = Some [bad_track, good_track]\<rparr>\<rparr>
   \<and> tracksUpdater Browser \<lparr>media = Some \<lparr>tracks = Some [good_track]\<rparr>\<rparr>
     = \<lparr>media = Some \<lparr>tracks = Some [good_track_updated]\<rparr>\<rparr>
   \<and> good_track_updated \<noteq> good_track"
  by (simp add: tracksUpdater_def doTracksUpdate_def good_track_update good_track_changed updateTrack_undecodable [OF bad_track_payload bad_payload_rejected])

section \<open>Base64\<close>

lemma b64_char_props:
  assumes "n < 64"
  shows "is_b64 (b64_char n)" "b64_char n \<noteq> EQUALS" "\<not> is_ascii_whitespace (b64_char n)"
    "b64_value (b64_char n) = n"
  using assms
  by (auto simp: b64_char_def is_b64_def is_alnum_def is_digit_def is_ascii_whitespace_def
      b64_value_def char_of_code_le unat_char_of_code Let_def)


lemma b64_groups:
  fixes a b c :: nat
  assumes "a < 256" "b < 256" "c < 256"
  shows "a div 4 < 64" "a mod 4 * 16 + b div 16 < 64" "b mod 16 * 4 + c div 64 < 64" "c mod 64 < 64"
    "a mod 4 * 16 < 64" "b mod 16 * 4 < 64"
    "a div 4 * 4 + (a mod 4 * 16 + b div 16) div 16 = a"
    "(a mod 4 * 16 + b div 16) mod 16 * 16 + (b mod 16 * 4 + c div 64) div 4 = b"
    "(b mod 16 * 4 + c div 64) mod 4 * 64 + c mod 64 = c"
    "a div 4 * 4 + a mod 4 * 16 div 16 = a"
    "(a mod 4 * 16 + b div 16) mod 16 * 16 + b mod 16 * 4 div 4 = b"
proof -
  have b16: "b div 16 < 16" using assms by simp
  have c64: "c div 64 < 4" using assms by simp
  show "a div 4 < 64" "a mod 4 * 16 + b div 16 < 64" "b mod 16 * 4 + c div 64 < 64"
    "c mod 64 < 64" "a mod 4 * 16 < 64" "b mod 16 * 4 < 64"
    using assms by auto
  show "a div 4 * 4 + (a mod 4 * 16 + b div 16) div 16 = a" using b16 by simp
  show "(a mod 4 * 16 + b div 16) mod 16 * 16 + (b mod 16 * 4 + c div 64) div 4 = b"
    using b16 c64 by simp
  show "(b mod 16 * 4 + c div 64) mod 4 * 64 + c mod 64 = c" using c64 by simp
  show "a div 4 * 4 + a mod 4 * 16 div 16 = a" by simp
  show "(a mod 4 * 16 + b div 16) mod 16 * 16 + b mod 16 * 4 div 4 = b" using b16 by simp
qed

text \<open>The encoding without its padding.\<close>

fun b64_unpadded :: "nat list \<Rightarrow> jsstring" where
  "b64_unpadded (a # b # c # r) =
     [b64_char (a div 4), b64_char (a mod 4 * 16 + b div 16),
      b64_char (b mod 16 * 4 + c div 64), b64_char (c mod 64)] @ b64_unpadded r"
| "b64_unpadded [a, b] =
     [b64_char (a div 4), b64_char (a mod 4 * 16 + b div 16), b64_char (b mod 16 * 4)]"
| "b64_unpadded [a] = [b64_char (a div 4), b64_char (a mod 4 * 16)]"
| "b64_unpadded [] = []"

lemma strip_padding_append:
  "2 \<le> length ys \<Longrightarrow> strip_padding (xs @ ys) = xs @ strip_padding ys"
proof -
  assume l: "2 \<le> length ys"
  then have ne: "ys \<noteq> []" by auto
  have bne: "butlast ys \<noteq> []"
  proof
    assume "butlast ys = []"
    then have "length (butlast ys) = 0" by simp
    with l show False by simp
  qed
  show ?thesis
    using ne bne by (simp add: strip_padding_def Let_def butlast_append last_append)
qed

lemma b64_encode_length: "b64_encode bs \<noteq> [] \<Longrightarrow> 2 \<le> length (b64_encode bs)"
  by (induction bs rule: b64_encode.induct) auto

lemma strip_padding_b64_encode:
  "list_all (\<lambda>b. b < 256) bs \<Longrightarrow> strip_padding (b64_encode bs) = b64_unpadded bs"
proof (induction bs rule: b64_encode.induct)
  case (1 a b c r)
  then have g: "a < 256" "b < 256" "c < 256" and r: "list_all (\<lambda>b. b < 256) r" by simp_all
  show ?case
  proof (cases "b64_encode r = []")
    case True
    then have "r = []" by (cases r rule: b64_encode.cases) auto
    then show ?thesis
      using b64_char_props(2) [OF b64_groups(4) [OF g]] b64_char_props(2) [OF b64_groups(3) [OF g]]
      by (simp add: strip_padding_def Let_def)
  next
    case False
    from strip_padding_append [OF b64_encode_length [OF False],
        of "[b64_char (a div 4), b64_char (a mod 4 * 16 + b div 16),
             b64_char (b mod 16 * 4 + c div 64), b64_char (c mod 64)]"] 1(1) [OF r]
    show ?thesis by simp
  qed
next
  case (2 a b)
  then have g: "a < 256" "b < 256" by simp_all
  from b64_char_props(2) [OF b64_groups(6) [OF g(1) g(2) g(2)]]
  show ?case by (simp add: strip_padding_def Let_def)
next
  case (3 a)
  then have g: "a < 256" by simp
  from b64_char_props(2) [OF b64_groups(5) [OF g g g]]
  show ?case by (simp add: strip_padding_def Let_def)
next
  case 4
  then show ?case by (simp add: strip_padding_def)
qed

lemma b64_encode_facts:
  "list_all (\<lambda>b. b < 256) bs \<Longrightarrow>
   length (b64_encode bs) mod 4 = 0 \<and> list_all (\<lambda>c. \<not> is_ascii_whitespace c) (b64_encode bs)"
proof (induction bs rule: b64_encode.induct)
  case (1 a b c r)
  then have g: "a < 256" "b < 256" "c < 256" and r: "list_all (\<lambda>b. b < 256) r" by simp_all
  from 1(1) [OF r] b64_char_props(3) [OF b64_groups(1) [OF g]]
    b64_char_props(3) [OF b64_groups(2) [OF g]] b64_char_props(3) [OF b64_groups(3) [OF g]]
    b64_char_props(3) [OF b64_groups(4) [OF g]]
  show ?case by simp
next
  case (2 a b)
  then have g: "a < 256" "b < 256" by simp_all
  from b64_char_props(3) [OF b64_groups(1) [OF g g(2)]]
    b64_char_props(3) [OF b64_groups(2) [OF g g(2)]] b64_char_props(3) [OF b64_groups(6) [OF g g(2)]]
  show ?case by (simp add: is_ascii_whitespace_def)
next
  case (3 a)
  then have g: "a < 256" by simp
  from b64_char_props(3) [OF b64_groups(1) [OF g g g]] b64_char_props(3) [OF b64_groups(5) [OF g g g]]
  show ?case by (simp add: is_ascii_whitespace_def)
next
  case 4
  then show ?case by simp
qed

lemma b64_unpadded_facts:
  "list_all (\<lambda>b. b < 256) bs \<Longrightarrow>
   length (b64_unpadded bs) mod 4 \<noteq> 1 \<and> list_all is_b64 (b64_unpadded bs)
   \<and> b64_decode (map b64_value (b64_unpadded bs)) = bs"
proof (induction bs rule: b64_unpadded.induct)
  case (1 a b c r)
  then have g: "a < 256" "b < 256" "c < 256" and r: "list_all (\<lambda>b. b < 256) r" by simp_all
  note p = b64_char_props [OF b64_groups(1) [OF g]] b64_char_props [OF b64_groups(2) [OF g]]
    b64_char_props [OF b64_groups(3) [OF g]] b64_char_props [OF b64_groups(4) [OF g]]
  from 1(1) [OF r] p b64_groups(7,8,9) [OF g] show ?case by simp
next
  case (2 a b)
  then have g: "a < 256" "b < 256" by simp_all
  note p = b64_char_props [OF b64_groups(1) [OF g g(2)]] b64_char_props [OF b64_groups(2) [OF g g(2)]]
    b64_char_props [OF b64_groups(6) [OF g g(2)]]
  from p b64_groups(7,11) [OF g g(2)] show ?case by simp
next
  case (3 a)
  then have g: "a < 256" by simp
  note p = b64_char_props [OF b64_groups(1) [OF g g g]] b64_char_props [OF b64_groups(5) [OF g g g]]
  from p b64_groups(10) [OF g g g] show ?case by simp
next
  case 4
  then show ?case by simp
qed

lemma atob_btoa:
  assumes "list_all (\<lambda>c. c \<le> 0xFF) m"
  shows "btoa m = Inr (b64_encode (map unat m)) \<and> atob (b64_encode (map unat m)) = Inr m"
proof -
  let ?bs = "map unat m"
  have bs: "list_all (\<lambda>b. b < 256) ?bs"
    using assms by (auto simp: list_all_iff word_le_nat_alt)
  from b64_encode_facts [OF bs] have
    f: "filter (\<lambda>c. \<not> is_ascii_whitespace c) (b64_encode ?bs) = b64_encode ?bs"
    and l: "length (b64_encode ?bs) mod 4 = 0"
    by (simp_all add: list_all_iff)
  have "map char_of_code ?bs = m" by (simp add: comp_def char_of_code_unat)
  with b64_unpadded_facts [OF bs] strip_padding_b64_encode [OF bs] f l assms
  show ?thesis by (simp add: atob_def btoa_def Let_def)
qed


section \<open>The transport encoding\<close>

lemma hex_upper_props:
  assumes "n < 16"
  shows "is_hex (hex_upper n)" "hex_upper n \<noteq> 0x75" "hex_digit_value (hex_upper n) = n"
  using assms
  by (auto simp: hex_upper_def is_hex_def is_digit_def hex_digit_value_def char_of_code_le
      unat_char_of_code)

lemma hex_lower_props:
  assumes "n < 16"
  shows "is_hex (hex_lower n)" "hex_digit_value (hex_lower n) = n"
  using assms
  by (auto simp: hex_lower_def is_hex_def is_digit_def hex_digit_value_def char_of_code_le
      unat_char_of_code)

lemma hex_pair_octet:
  assumes "b < 256"
  shows "hex_pair (hex_upper (b div 16) # hex_upper (b mod 16) # r) = Some b"
proof -
  have d: "b div 16 < 16" "b mod 16 < 16" using assms by simp_all
  from hex_upper_props(1,3) [OF d(1)] hex_upper_props(1,3) [OF d(2)]
  show ?thesis by (simp add: hex_pair_def hex_value_def)
qed

lemma unescape_plain: "c \<noteq> PERCENT \<Longrightarrow> unescape (c # r) = c # unescape r"
  by simp

lemma unescape_octet:
  assumes "b < 256"
  shows "unescape (percent_octet b @ r) = char_of_code b # unescape r"
proof -
  have d: "b div 16 < 16" "b mod 16 < 16" using assms by simp_all
  from hex_upper_props [OF d(1)] hex_upper_props [OF d(2)]
  show ?thesis by (simp add: percent_octet_def hex_value_def)
qed

lemma unescape_percent_encode:
  "list_all (\<lambda>b. b < 256) bs \<Longrightarrow>
   unescape (percent_encode bs @ r) = map char_of_code bs @ unescape r"
proof (induction bs)
  case Nil
  then show ?case by (simp add: percent_encode_def)
next
  case (Cons b bs)
  then have "unescape (percent_octet b @ (percent_encode bs @ r))
             = char_of_code b # unescape (percent_encode bs @ r)"
    by (intro unescape_octet) simp
  with Cons show ?case by (simp add: percent_encode_def)
qed

lemma div_bounds:
  fixes cp :: nat
  shows "cp < 0x800 \<Longrightarrow> cp div 64 < 32"
    and "cp < 0x10000 \<Longrightarrow> cp div 4096 < 16"
    and "cp < 0x110000 \<Longrightarrow> cp div 262144 < 5"
    and "0x80 \<le> cp \<Longrightarrow> 2 \<le> cp div 64"
    and "0x800 \<le> cp \<Longrightarrow> 32 \<le> cp div 64"
    and "0x10000 \<le> cp \<Longrightarrow> 16 \<le> cp div 4096"
  by arith+

lemma utf8_octets:
  "cp < 0x110000 \<Longrightarrow> list_all (\<lambda>b. b < 256) (utf8 cp)"
  using div_bounds(1,2,3) [of cp] by (auto simp: utf8_def)

lemma utf8_high:
  "0x80 \<le> cp \<Longrightarrow> cp < 0x110000 \<Longrightarrow> list_all (\<lambda>b. 0x80 \<le> b \<and> b < 256) (utf8 cp)"
  using div_bounds(1,2,3) [of cp] by (auto simp: utf8_def)

lemma escape_append: "escape (xs @ ys) = escape xs @ escape ys"
  by (simp add: escape_def)

lemma escape_unreserved_ascii: "escape_unreserved c \<Longrightarrow> unat c < 0x80 \<and> c \<noteq> PERCENT"
  by (auto simp: escape_unreserved_def is_alnum_def is_digit_def js_def word_le_nat_alt)

lemma uri_unreserved_ascii: "uri_unreserved c \<Longrightarrow> unat c < 0x80 \<and> c \<noteq> PERCENT"
  by (auto simp: uri_unreserved_def is_alnum_def is_digit_def js_def word_le_nat_alt)

lemma escape_unit_high:
  assumes "0x80 \<le> b" "b < 256"
  shows "escape_unit (char_of_code b) = percent_octet b"
proof -
  have u: "unat (char_of_code b) = b" using assms by (simp add: unat_char_of_code)
  have "\<not> escape_unreserved (char_of_code b)"
    using escape_unreserved_ascii [of "char_of_code b"] u assms by auto
  then show ?thesis using u assms by (simp add: escape_unit_def percent_octet_def Let_def)
qed

lemma escape_high:
  "list_all (\<lambda>b. 0x80 \<le> b \<and> b < 256) bs \<Longrightarrow>
   escape (map char_of_code bs) = percent_encode bs"
  by (induction bs) (simp_all add: escape_def percent_encode_def escape_unit_high)

lemma utf8_sum3:
  fixes cp :: nat
  shows "cp div 4096 * 4096 + cp div 64 mod 64 * 64 + cp mod 64 = cp"
proof -
  define q where "q = cp div 64"
  have g: "\<And>a b :: nat. a * 4096 + b * 64 = (a * 64 + b) * 64" by simp
  have 1: "cp div 4096 = q div 64" unfolding q_def by (simp add: div_mult2_eq [symmetric])
  have "q div 64 * 4096 + q mod 64 * 64 = (q div 64 * 64 + q mod 64) * 64" by (rule g)
  also have "\<dots> = q * 64" by simp
  finally have "cp div 4096 * 4096 + q mod 64 * 64 + cp mod 64 = q * 64 + cp mod 64"
    unfolding 1 by simp
  also have "\<dots> = cp" unfolding q_def by simp
  finally show ?thesis unfolding q_def .
qed

lemma utf8_sum4:
  fixes cp :: nat
  shows "cp div 262144 * 262144 + cp div 4096 mod 64 * 4096 + cp div 64 mod 64 * 64 + cp mod 64 = cp"
proof -
  define r where "r = cp div 4096"
  have g: "\<And>a b :: nat. a * 262144 + b * 4096 = (a * 64 + b) * 4096" by simp
  have 1: "cp div 262144 = r div 64" unfolding r_def by (simp add: div_mult2_eq [symmetric])
  have "r div 64 * 262144 + r mod 64 * 4096 = (r div 64 * 64 + r mod 64) * 4096" by (rule g)
  also have "\<dots> = r * 4096" by simp
  finally have "cp div 262144 * 262144 + r mod 64 * 4096 + cp div 64 mod 64 * 64 + cp mod 64
        = r * 4096 + cp div 64 mod 64 * 64 + cp mod 64"
    unfolding 1 by simp
  also have "\<dots> = cp" unfolding r_def by (rule utf8_sum3)
  finally show ?thesis unfolding r_def .
qed

lemma decode_plain:
  "c \<noteq> PERCENT \<Longrightarrow> decodeURIComponent (c # r) = prepend [c] (decodeURIComponent r)"
  by simp

lemma decode_ascii_octet:
  assumes "b < 0x80"
  shows "decodeURIComponent (percent_octet b @ r) = prepend [char_of_code b] (decodeURIComponent r)"
proof -
  from assms have "b < 256" by simp
  from hex_pair_octet [OF this] assms show ?thesis
    by (simp add: percent_octet_def leading_ones_def)
qed

lemma cont_octets_encode:
  "list_all (\<lambda>b. b < 256) bs \<Longrightarrow> cont_octets (length bs) (percent_encode bs @ r) = Some bs"
proof (induction bs)
  case Nil
  then show ?case by simp
next
  case (Cons b bs)
  then have b: "b < 256" and bs: "list_all (\<lambda>b. b < 256) bs" by simp_all
  have "percent_encode (b # bs) @ r
        = PERCENT # hex_upper (b div 16) # hex_upper (b mod 16) # percent_encode bs @ r"
    by (simp add: percent_encode_def percent_octet_def)
  with hex_pair_octet [OF b] Cons.IH [OF bs] show ?case by simp
qed

lemma length_percent_encode: "length (percent_encode bs) = 3 * length bs"
  by (induction bs) (simp_all add: percent_encode_def percent_octet_def)

lemma decode_multi:
  assumes "list_all (\<lambda>b. b < 256) (b0 # bs)" and "leading_ones b0 = Suc (length bs)"
    and "bs \<noteq> []" and "length bs \<le> 3" and "utf8_decode (b0 # bs) = Some cp"
  shows "decodeURIComponent (percent_encode (b0 # bs) @ r)
         = prepend (utf16 cp) (decodeURIComponent r)"
proof -
  let ?cs = "hex_upper (b0 div 16) # hex_upper (b0 mod 16) # percent_encode bs @ r"
  from assms(1) have b0: "b0 < 256" and b: "list_all (\<lambda>b. b < 256) bs" by simp_all
  have e: "percent_encode (b0 # bs) @ r = PERCENT # ?cs"
    by (simp add: percent_encode_def percent_octet_def)
  have h: "hex_pair ?cs = Some b0" by (rule hex_pair_octet [OF b0])
  have c: "cont_octets (leading_ones b0 - 1) (drop 2 ?cs) = Some bs"
    using cont_octets_encode [OF b] assms(2) by simp
  have d: "drop (2 + 3 * (leading_ones b0 - 1)) ?cs = r"
    using assms(2) by (simp add: length_percent_encode)
  from assms(3) have l: "0 < length bs" by simp
  show ?thesis
    unfolding e using h c d l assms(2,4,5) by (simp del: drop_Suc_Cons)
qed

lemma utf8_decode_utf8:
  assumes "0x80 \<le> cp" "cp < 0x110000" "\<not> (0xD800 \<le> cp \<and> cp \<le> 0xDFFF)"
  shows "\<exists>b0 bs. utf8 cp = b0 # bs \<and> list_all (\<lambda>b. b < 256) (b0 # bs)
           \<and> leading_ones b0 = Suc (length bs) \<and> bs \<noteq> [] \<and> length bs \<le> 3
           \<and> utf8_decode (b0 # bs) = Some cp"
proof -
  note o = utf8_octets [OF assms(2)]
  consider "cp < 0x800" | "0x800 \<le> cp" "cp < 0x10000" | "0x10000 \<le> cp" by linarith
  then show ?thesis
  proof cases
    case 1
    with assms(1) div_bounds(1,4) [of cp] o show ?thesis
      by (simp add: utf8_def leading_ones_def utf8_decode_def is_cont_def)
  next
    case 2
    with assms div_bounds(2) [of cp] o utf8_sum3 [of cp] show ?thesis
      by (simp add: utf8_def leading_ones_def utf8_decode_def is_cont_def)
  next
    case 3
    with assms div_bounds(3) [of cp] o utf8_sum4 [of cp] show ?thesis
      by (simp add: utf8_def leading_ones_def utf8_decode_def is_cont_def)
  qed
qed

lemma decode_code_point:
  assumes "0x80 \<le> cp" "cp < 0x110000" "\<not> (0xD800 \<le> cp \<and> cp \<le> 0xDFFF)"
  shows "decodeURIComponent (escape (map char_of_code (utf8 cp)) @ r)
         = prepend (utf16 cp) (decodeURIComponent r)"
proof -
  from utf8_decode_utf8 [OF assms] obtain b0 bs where
    u: "utf8 cp = b0 # bs" and rest: "list_all (\<lambda>b. b < 256) (b0 # bs)"
      "leading_ones b0 = Suc (length bs)" "bs \<noteq> []" "length bs \<le> 3"
      "utf8_decode (b0 # bs) = Some cp"
    by blast
  have "escape (map char_of_code (utf8 cp)) = percent_encode (utf8 cp)"
    by (rule escape_high [OF utf8_high [OF assms(1,2)]])
  with decode_multi [OF rest, of r] u show ?thesis by simp
qed

lemma decode_ascii:
  assumes "unat c < 0x80"
  shows "decodeURIComponent (escape [c] @ r) = prepend [c] (decodeURIComponent r)"
proof (cases "escape_unreserved c")
  case True
  with escape_unreserved_ascii [OF True] show ?thesis
    by (simp add: escape_def escape_unit_def)
next
  case False
  with assms have "escape [c] = percent_octet (unat c)"
    by (simp add: escape_def escape_unit_def percent_octet_def Let_def)
  with decode_ascii_octet [OF assms, of r] show ?thesis by (simp add: char_of_code_unat)
qed


text \<open>A string without a lone surrogate: every lead surrogate is followed by a trail
  surrogate, and every trail surrogate follows a lead surrogate.\<close>

fun wf16 :: "jsstring \<Rightarrow> bool" where
  "wf16 [] = True"
| "wf16 [c] = (\<not> is_lead c \<and> \<not> is_trail c)"
| "wf16 (c # d # cs) =
     (if is_lead c \<and> is_trail d then wf16 cs
      else \<not> is_lead c \<and> \<not> is_trail c \<and> wf16 (d # cs))"

text \<open>The UTF-8 octets of a string, as a string of code units below 256.\<close>

fun utf8_string :: "jsstring \<Rightarrow> jsstring" where
  "utf8_string [] = []"
| "utf8_string [c] = map char_of_code (utf8 (unat c))"
| "utf8_string (c # d # cs) =
     (if is_lead c \<and> is_trail d
      then map char_of_code (utf8 (pair_code_point c d)) @ utf8_string cs
      else map char_of_code (utf8 (unat c)) @ utf8_string (d # cs))"

lemma surrogate_unat:
  "is_lead c = (0xD800 \<le> unat c \<and> unat c \<le> 0xDBFF)"
  "is_trail c = (0xDC00 \<le> unat c \<and> unat c \<le> 0xDFFF)"
  by (simp_all add: is_lead_def is_trail_def word_le_nat_alt)

lemma pair_code_point_range:
  assumes "is_lead c" "is_trail d"
  shows "0x10000 \<le> pair_code_point c d" "pair_code_point c d < 0x110000"
  using assms by (auto simp: surrogate_unat pair_code_point_def)

lemma utf16_pair:
  assumes "is_lead c" "is_trail d"
  shows "utf16 (pair_code_point c d) = [c, d]"
proof -
  define x where "x = unat c - 0xD800"
  define y where "y = unat d - 0xDC00"
  from assms have x: "x < 1024" "x + 0xD800 = unat c" and y: "y < 1024" "y + 0xDC00 = unat d"
    by (auto simp: surrogate_unat x_def y_def)
  have p: "pair_code_point c d = x * 1024 + y + 0x10000"
    by (simp add: pair_code_point_def x_def y_def)
  have "(x * 1024 + y) div 1024 = x" "(x * 1024 + y) mod 1024 = y" using x(1) y(1) by simp_all
  then show ?thesis
    unfolding utf16_def p using x(2) y(2) by (simp add: char_of_code_unat)
qed

lemma utf16_unit: "utf16 (unat c) = [c]"
  using unat_jschar_less [of c] by (simp add: utf16_def char_of_code_unat)

lemma utf8_ascii: "cp < 0x80 \<Longrightarrow> utf8 cp = [cp]"
  by (simp add: utf8_def)

lemma encode_unit:
  assumes "\<not> is_lead c" "\<not> is_trail c"
  shows "\<exists>p. (\<forall>r. encodeURIComponent (c # r) = prepend p (encodeURIComponent r))
             \<and> (\<forall>r. unescape (p @ r) = map char_of_code (utf8 (unat c)) @ unescape r)"
proof (cases "uri_unreserved c")
  case True
  from uri_unreserved_ascii [OF True] have a: "unat c < 0x80" "c \<noteq> PERCENT" by simp_all
  from True a show ?thesis
    by (intro exI [of _ "[c]"]) (simp add: utf8_ascii char_of_code_unat)
next
  case False
  have "list_all (\<lambda>b. b < 256) (utf8 (unat c))"
    using unat_jschar_less [of c] by (intro utf8_octets) simp
  from unescape_percent_encode [OF this] False assms show ?thesis
    by (intro exI [of _ "percent_encode (utf8 (unat c))"]) simp
qed

lemma encode_pair:
  assumes "is_lead c" "is_trail d"
  shows "\<exists>p. (\<forall>r. encodeURIComponent (c # d # r) = prepend p (encodeURIComponent r))
             \<and> (\<forall>r. unescape (p @ r) = map char_of_code (utf8 (pair_code_point c d)) @ unescape r)"
proof -
  have nu: "\<not> uri_unreserved c"
    using uri_unreserved_ascii [of c] assms(1) by (auto simp: surrogate_unat)
  have nt: "\<not> is_trail c" using assms(1) by (auto simp: surrogate_unat)
  have "list_all (\<lambda>b. b < 256) (utf8 (pair_code_point c d))"
    by (rule utf8_octets [OF pair_code_point_range(2) [OF assms]])
  from unescape_percent_encode [OF this] nu nt assms show ?thesis
    by (intro exI [of _ "percent_encode (utf8 (pair_code_point c d))"]) simp
qed

lemma encodeURIComponent_utf8:
  "wf16 s \<Longrightarrow> \<exists>u. encodeURIComponent s = Inr u \<and> unescape u = utf8_string s"
proof (induction s rule: wf16.induct)
  case 1
  then show ?case by simp
next
  case (2 c)
  then have "\<not> is_lead c" "\<not> is_trail c" by simp_all
  from encode_unit [OF this] obtain p where
    p: "\<forall>r. encodeURIComponent (c # r) = prepend p (encodeURIComponent r)"
       "\<forall>r. unescape (p @ r) = map char_of_code (utf8 (unat c)) @ unescape r"
    by blast
  from p(1) [rule_format, of "[]"] p(2) [rule_format, of "[]"] show ?case
    by (simp add: prepend_def)
next
  case (3 c d cs)
  show ?case
  proof (cases "is_lead c \<and> is_trail d")
    case True
    with 3 obtain u where u: "encodeURIComponent cs = Inr u" "unescape u = utf8_string cs"
      by auto
    from True encode_pair [of c d] obtain p where
      p: "\<forall>r. encodeURIComponent (c # d # r) = prepend p (encodeURIComponent r)"
         "\<forall>r. unescape (p @ r) = map char_of_code (utf8 (pair_code_point c d)) @ unescape r"
      by blast
    from p(1) [rule_format, of cs] p(2) [rule_format, of u] u True show ?thesis
      by (simp add: prepend_def)
  next
    case False
    with 3 have w: "\<not> is_lead c" "\<not> is_trail c" "wf16 (d # cs)" by (simp_all split: if_splits)
    with 3(2) False obtain u where
      u: "encodeURIComponent (d # cs) = Inr u" "unescape u = utf8_string (d # cs)"
      by auto
    from encode_unit [OF w(1,2)] obtain p where
      p: "\<forall>r. encodeURIComponent (c # r) = prepend p (encodeURIComponent r)"
         "\<forall>r. unescape (p @ r) = map char_of_code (utf8 (unat c)) @ unescape r"
      by blast
    from p(1) [rule_format, of "d # cs"] p(2) [rule_format, of u] u w(1) show ?thesis
      by (simp add: prepend_def del: encodeURIComponent.simps)
  qed
qed

lemma octet_chars:
  "list_all (\<lambda>b. b < 256) bs \<Longrightarrow> list_all (\<lambda>c. c \<le> 0xFF) (map char_of_code bs)"
  by (induction bs) (simp_all add: char_of_code_le)

lemma utf8_string_octets: "list_all (\<lambda>c. c \<le> 0xFF) (utf8_string s)"
proof (induction s rule: utf8_string.induct)
  case 1
  then show ?case by simp
next
  case (2 c)
  have "list_all (\<lambda>b. b < 256) (utf8 (unat c))"
    using unat_jschar_less [of c] by (intro utf8_octets) simp
  then show ?case by (simp add: octet_chars)
next
  case (3 c d cs)
  have u: "list_all (\<lambda>b. b < 256) (utf8 (unat c))"
    using unat_jschar_less [of c] by (intro utf8_octets) simp
  show ?case
  proof (cases "is_lead c \<and> is_trail d")
    case True
    then have "list_all (\<lambda>b. b < 256) (utf8 (pair_code_point c d))"
      by (intro utf8_octets pair_code_point_range) simp_all
    with True 3 show ?thesis by (simp add: octet_chars)
  next
    case False
    with 3 u show ?thesis by (auto simp: octet_chars)
  qed
qed

lemma decode_unit:
  assumes "\<not> is_lead c" "\<not> is_trail c"
  shows "decodeURIComponent (escape (map char_of_code (utf8 (unat c))) @ r)
         = prepend [c] (decodeURIComponent r)"
proof (cases "unat c < 0x80")
  case True
  with decode_ascii [OF True, of r] show ?thesis by (simp add: utf8_ascii char_of_code_unat)
next
  case False
  with assms have "0x80 \<le> unat c" "unat c < 0x110000" "\<not> (0xD800 \<le> unat c \<and> unat c \<le> 0xDFFF)"
    using unat_jschar_less [of c] by (auto simp: surrogate_unat)
  from decode_code_point [OF this, of r] show ?thesis by (simp add: utf16_unit)
qed

lemma decode_pair:
  assumes "is_lead c" "is_trail d"
  shows "decodeURIComponent (escape (map char_of_code (utf8 (pair_code_point c d))) @ r)
         = prepend [c, d] (decodeURIComponent r)"
proof -
  from pair_code_point_range [OF assms] have
    "0x80 \<le> pair_code_point c d" "pair_code_point c d < 0x110000"
    "\<not> (0xD800 \<le> pair_code_point c d \<and> pair_code_point c d \<le> 0xDFFF)"
    by simp_all
  from decode_code_point [OF this, of r] show ?thesis by (simp add: utf16_pair [OF assms])
qed

lemma decodeURIComponent_utf8:
  "wf16 s \<Longrightarrow> decodeURIComponent (escape (utf8_string s)) = Inr s"
proof (induction s rule: wf16.induct)
  case 1
  then show ?case by (simp add: escape_def)
next
  case (2 c)
  then have "\<not> is_lead c" "\<not> is_trail c" by simp_all
  from decode_unit [OF this, of "[]"] show ?case by (simp add: prepend_def)
next
  case (3 c d cs)
  show ?case
  proof (cases "is_lead c \<and> is_trail d")
    case True
    with 3 have "decodeURIComponent (escape (utf8_string cs)) = Inr cs" by simp
    with decode_pair [of c d "escape (utf8_string cs)"] True show ?thesis
      by (simp add: escape_append prepend_def)
  next
    case False
    with 3 have w: "\<not> is_lead c" "\<not> is_trail c" "wf16 (d # cs)" by (simp_all split: if_splits)
    with 3(2) False have "decodeURIComponent (escape (utf8_string (d # cs))) = Inr (d # cs)"
      by simp
    with decode_unit [OF w(1,2), of "escape (utf8_string (d # cs))"] w(1) show ?thesis
      by (simp add: escape_append prepend_def)
  qed
qed


section \<open>JSON text of an object of strings\<close>

lemma wf16_append: "wf16 xs \<Longrightarrow> wf16 ys \<Longrightarrow> wf16 (xs @ ys)"
proof (induction xs rule: wf16.induct)
  case 1
  then show ?case by simp
next
  case (2 c)
  then show ?case by (cases ys) auto
next
  case (3 c d cs)
  then show ?case by (auto split: if_splits)
qed

lemma wf16_plain: "list_all (\<lambda>c. \<not> is_lead c \<and> \<not> is_trail c) s \<Longrightarrow> wf16 s"
  by (induction s rule: wf16.induct) auto

lemma hex_lower_plain: "n < 16 \<Longrightarrow> \<not> is_lead (hex_lower n) \<and> \<not> is_trail (hex_lower n)"
  by (auto simp: hex_lower_def is_lead_def is_trail_def char_of_code_le)

lemma wf16_quote_unit: "wf16 (quote_unit c)"
proof -
  have d: "unat c div 4096 < 16" "unat c div 256 mod 16 < 16" "unat c div 16 mod 16 < 16"
    "unat c mod 16 < 16"
    using unat_jschar_less [of c] by simp_all
  have "wf16 (unicode_escape c)"
    using hex_lower_plain [OF d(1)] hex_lower_plain [OF d(2)] hex_lower_plain [OF d(3)]
      hex_lower_plain [OF d(4)]
    by (intro wf16_plain) (simp add: unicode_escape_def Let_def is_lead_def is_trail_def)
  then show ?thesis
    by (simp add: quote_unit_def is_lead_def is_trail_def)
qed

lemma wf16_quote_body: "wf16 (quote_body s)"
  by (induction s rule: quote_body.induct) (auto simp: wf16_quote_unit intro: wf16_append)

lemma wf16_quoteJSONString: "wf16 (quoteJSONString s)"
proof -
  have "wf16 ([DQUOTE] @ quote_body s @ [DQUOTE])"
    by (intro wf16_append wf16_quote_body) (simp_all add: is_lead_def is_trail_def)
  then show ?thesis by (simp add: quoteJSONString_def)
qed

lemma wf16_join:
  "wf16 sep \<Longrightarrow> \<forall>l \<in> set ls. wf16 l \<Longrightarrow> wf16 (join sep ls)"
  by (induction ls rule: induct_list012) (auto intro: wf16_append)

lemma wf16_js_ascii:
  "wf16 (js ''{'')" "wf16 (js ''}'')" "wf16 (js '':'')" "wf16 (js '','')"
  by (simp_all add: js_def is_lead_def is_trail_def)

lemma wf16_JSON_stringify: "wf16 (JSON_stringify obj)"
  unfolding JSON_stringify_def
  by (intro wf16_append wf16_join wf16_js_ascii ballI)
     (auto intro!: wf16_append wf16_quoteJSONString wf16_js_ascii)


lemma json_run_append:
  "json_run s (xs @ ys) = (case json_run s xs of Inl e \<Rightarrow> Inl e | Inr s' \<Rightarrow> json_run s' ys)"
  by (induction xs arbitrary: s) (auto split: sum.splits)

lemma json_run_then:
  "json_run s xs = Inr s' \<Longrightarrow> json_run s (xs @ ys) = json_run s' ys"
  by (simp add: json_run_append)

lemma hex_sum4:
  fixes n :: nat
  shows "16 * (16 * (16 * (n div 4096) + n div 256 mod 16) + n div 16 mod 16) + n mod 16 = n"
proof -
  define q where "q = n div 16"
  define r where "r = q div 16"
  have 1: "n div 256 = r" unfolding r_def q_def by (simp add: div_mult2_eq [symmetric])
  have 2: "n div 4096 = r div 16" unfolding r_def q_def by (simp add: div_mult2_eq [symmetric])
  have "16 * (r div 16) + r mod 16 = r" by simp
  then have "16 * (16 * (16 * (n div 4096) + n div 256 mod 16) + q mod 16) + n mod 16
             = 16 * (16 * r + q mod 16) + n mod 16"
    unfolding 1 2 by simp
  also have "16 * r + q mod 16 = q" unfolding r_def by simp
  also have "16 * q + n mod 16 = n" unfolding q_def by simp
  finally show ?thesis unfolding q_def .
qed

lemma hex_sum4_normal:
  fixes n :: nat
  shows "4096 * (n div 4096) + 256 * (n div 256 mod 16) + 16 * (n div 16 mod 16) + n mod 16 = n"
  using hex_sum4 [of n] by simp

lemma json_run_unicode_escape:
  "json_run (st, MStr k acc) (unicode_escape c) = Inr (st, MStr k (acc @ [c]))"
proof -
  have d: "unat c div 4096 < 16" "unat c div 256 mod 16 < 16" "unat c div 16 mod 16 < 16"
    "unat c mod 16 < 16"
    using unat_jschar_less [of c] by simp_all
  note h = hex_lower_props [OF d(1)] hex_lower_props [OF d(2)] hex_lower_props [OF d(3)]
    hex_lower_props [OF d(4)]
  show ?thesis
    using h
    by (simp add: unicode_escape_def Let_def escape_char_def hex_sum4_normal char_of_code_unat)
qed

lemma json_run_quote_unit:
  "json_run (st, MStr k acc) (quote_unit c) = Inr (st, MStr k (acc @ [c]))"
  by (simp add: quote_unit_def json_run_unicode_escape escape_char_def)

lemma surrogate_plain:
  assumes "is_lead c \<or> is_trail c"
  shows "c \<noteq> DQUOTE" "c \<noteq> BACKSLASH" "\<not> c < 0x20"
  using assms by (auto simp: surrogate_unat word_less_nat_alt)

lemma json_run_quote_body:
  "json_run (st, MStr k acc) (quote_body s) = Inr (st, MStr k (acc @ s))"
proof (induction s arbitrary: acc rule: quote_body.induct)
  case 1
  then show ?case by simp
next
  case (2 c)
  then show ?case by (simp add: json_run_quote_unit)
next
  case (3 c d cs)
  show ?case
  proof (cases "is_lead c \<and> is_trail d")
    case True
    then have "is_lead c \<or> is_trail c" "is_lead d \<or> is_trail d" by simp_all
    from surrogate_plain [OF this(1)] surrogate_plain [OF this(2)] True
      3(1) [OF True, of "acc @ [c, d]"]
    show ?thesis by simp
  next
    case False
    then have qb: "quote_body (c # d # cs) = quote_unit c @ quote_body (d # cs)"
      by (simp only: quote_body.simps if_False)
    have "json_run (st, MStr k acc) (quote_unit c @ quote_body (d # cs))
          = json_run (st, MStr k (acc @ [c])) (quote_body (d # cs))"
      by (rule json_run_then [OF json_run_quote_unit])
    also have "\<dots> = Inr (st, MStr k ((acc @ [c]) @ d # cs))"
      by (rule 3(2) [OF False])
    finally show ?thesis unfolding qb by simp
  qed
qed

lemma json_run_string:
  "json_run (st, MStr k []) (quote_body s @ DQUOTE # rest)
   = (case json_step (st, MStr k s) DQUOTE of Inl e \<Rightarrow> Inl e | Inr s' \<Rightarrow> json_run s' rest)"
  using json_run_then [OF json_run_quote_body [of st k "[]" s], of "DQUOTE # rest"] by simp

text \<open>The text of one member of an object.\<close>

definition member_text :: "jsstring \<times> jsstring \<Rightarrow> jsstring" where
  "member_text p = quoteJSONString (fst p) @ js '':'' @ quoteJSONString (snd p)"

lemma json_run_member:
  assumes "m = MObjFirst \<or> m = MKey"
  shows "json_run (FObj ps k0 # st, m) (member_text p @ rest)
         = json_run (FObj (AList.update (fst p) (JStr (snd p)) ps) [] # st, MAfter) rest"
proof -
  have ws: "\<not> is_json_ws DQUOTE" by (simp add: is_json_ws_def)
  have t: "member_text p @ rest
           = DQUOTE # (quote_body (fst p) @ DQUOTE # 0x3A # DQUOTE # (quote_body (snd p) @ DQUOTE # rest))"
    by (simp add: member_text_def quoteJSONString_def js_def)
  have "json_run (FObj ps k0 # st, m) (member_text p @ rest)
        = json_run (FObj ps k0 # st, MStr True [])
            (quote_body (fst p) @ DQUOTE # 0x3A # DQUOTE # (quote_body (snd p) @ DQUOTE # rest))"
    unfolding t using assms ws by auto
  also have "\<dots> = json_run (FObj ps (fst p) # st, MColon)
                      (0x3A # DQUOTE # (quote_body (snd p) @ DQUOTE # rest))"
    by (simp add: json_run_string)
  also have "\<dots> = json_run (FObj ps (fst p) # st, MStr False [])
                      (quote_body (snd p) @ DQUOTE # rest)"
    by (simp add: is_json_ws_def value_start_def)
  also have "\<dots> = json_run (FObj (AList.update (fst p) (JStr (snd p)) ps) [] # st, MAfter) rest"
    by (simp add: json_run_string)
  finally show ?thesis .
qed

lemma json_run_members:
  assumes "m = MObjFirst \<or> m = MKey"
  shows "ms \<noteq> [] \<Longrightarrow>
     json_run (FObj ps k0 # st, m) (join (js '','') (map member_text ms) @ rest)
     = json_run (FObj (foldl (\<lambda>ps p. AList.update (fst p) (JStr (snd p)) ps) ps ms) [] # st,
                 MAfter) rest"
  using assms
proof (induction ms arbitrary: ps k0 m rule: induct_list012)
  case 1
  then show ?case by simp
next
  case (2 p)
  then show ?case by (simp add: json_run_member)
next
  case (3 p q ms)
  have "json_run (FObj ps k0 # st, m) (join (js '','') (map member_text (p # q # ms)) @ rest)
        = json_run (FObj ps k0 # st, m)
            (member_text p @ COMMA # (join (js '','') (map member_text (q # ms)) @ rest))"
    by (simp add: js_def)
  also have "\<dots> = json_run (FObj (AList.update (fst p) (JStr (snd p)) ps) [] # st, MAfter)
                      (COMMA # (join (js '','') (map member_text (q # ms)) @ rest))"
    by (rule json_run_member [OF 3(4)])
  also have "\<dots> = json_run (FObj (AList.update (fst p) (JStr (snd p)) ps) [] # st, MKey)
                      (join (js '','') (map member_text (q # ms)) @ rest)"
    by (simp add: after_value_def is_json_ws_def)
  also have "\<dots> = json_run (FObj (foldl (\<lambda>ps p. AList.update (fst p) (JStr (snd p)) ps)
                        (AList.update (fst p) (JStr (snd p)) ps) (q # ms)) [] # st, MAfter) rest"
    by (rule 3(2)) simp_all
  finally show ?case by simp
qed

lemma JSON_parse_object:
  "JSON_parse (js ''{'' @ join (js '','') (map member_text ms) @ js ''}'')
   = Inr (JObj (foldl (\<lambda>ps p. AList.update (fst p) (JStr (snd p)) ps) [] ms))"
proof (cases "ms = []")
  case True
  then show ?thesis
    by (simp add: JSON_parse_def js_def is_json_ws_def value_start_def)
next
  case False
  have "json_run ([], MValue) (js ''{'' @ join (js '','') (map member_text ms) @ js ''}'')
        = json_run ([FObj [] []], MObjFirst) (join (js '','') (map member_text ms) @ js ''}'')"
    by (simp add: js_def is_json_ws_def value_start_def)
  also have "\<dots> = json_run ([FObj (foldl (\<lambda>ps p. AList.update (fst p) (JStr (snd p)) ps) [] ms) []],
                        MAfter) (js ''}'')"
    by (rule json_run_members [OF _ False]) simp
  also have "\<dots> = Inr ([], MDone (JObj (foldl (\<lambda>ps p. AList.update (fst p) (JStr (snd p)) ps) [] ms)))"
    by (simp add: js_def after_value_def is_json_ws_def)
  finally show ?thesis by (simp add: JSON_parse_def)
qed

lemma foldl_update_fresh:
  "distinct (map fst ps @ map fst ms) \<Longrightarrow>
   foldl (\<lambda>ps p. AList.update (fst p) (JStr (snd p)) ps) ps ms
   = ps @ map (\<lambda>p. (fst p, JStr (snd p))) ms"
proof (induction ms arbitrary: ps)
  case Nil
  then show ?case by simp
next
  case (Cons p ms)
  from Cons.prems have "AList.update (fst p) (JStr (snd p)) ps = ps @ [(fst p, JStr (snd p))]"
    by (intro update_fresh) auto
  moreover from Cons.prems have "distinct (map fst (ps @ [(fst p, JStr (snd p))]) @ map fst ms)"
    by auto
  ultimately show ?case using Cons.IH [of "ps @ [(fst p, JStr (snd p))]"] by simp
qed

lemma JSON_parse_stringify:
  assumes "distinct (map fst obj)" and "\<forall>p \<in> set obj. \<not> is_array_index (fst p)"
  shows "JSON_parse (JSON_stringify obj) = Inr (JObj (map (\<lambda>p. (fst p, JStr (snd p))) obj))"
proof -
  have "(\<lambda>p. quoteJSONString (fst p) @ js '':'' @ quoteJSONString (snd p)) = member_text"
    by (simp add: member_text_def fun_eq_iff)
  then have "JSON_stringify obj = js ''{'' @ join (js '','') (map member_text obj) @ js ''}''"
    using assms(2) by (simp add: JSON_stringify_def entries_no_index)
  with JSON_parse_object [of obj] foldl_update_fresh [of "[]" obj] assms(1)
  show ?thesis by simp
qed


section \<open>The side-channel codec\<close>

lemma encodeObject_Browser:
  "\<exists>u. encodeURIComponent (JSON_stringify obj) = Inr u
       \<and> unescape u = utf8_string (JSON_stringify obj)
       \<and> encodeObject Browser obj = Inr (b64_encode (map unat (utf8_string (JSON_stringify obj))))"
proof -
  from encodeURIComponent_utf8 [OF wf16_JSON_stringify, of obj] obtain u where
    u: "encodeURIComponent (JSON_stringify obj) = Inr u"
       "unescape u = utf8_string (JSON_stringify obj)"
    by blast
  from atob_btoa [OF utf8_string_octets, of "JSON_stringify obj"] u show ?thesis
    by (simp add: encodeObject_def)
qed

lemma encodeObject_total: "\<exists>payload. encodeObject ev obj = Inr payload"
proof (cases ev)
  case Browser
  with encodeObject_Browser [of obj] show ?thesis by blast
next
  case (Node to_base64 from_base64)
  with encodeObject_Browser [of obj] show ?thesis by (auto simp: encodeObject_def)
qed

lemma codec_roundtrip:
  assumes "distinct (map fst obj)" and "\<forall>p \<in> set obj. \<not> is_array_index (fst p)"
  shows "\<exists>payload. encodeObject Browser obj = Inr payload
           \<and> decodeObject Browser payload = Inr (JObj (map (\<lambda>p. (fst p, JStr (snd p))) obj))"
proof -
  let ?s = "JSON_stringify obj"
  let ?m = "utf8_string ?s"
  from encodeObject_Browser [of obj] have
    e: "encodeObject Browser obj = Inr (b64_encode (map unat ?m))"
    by blast
  from atob_btoa [OF utf8_string_octets, of ?s] have
    a: "atob (b64_encode (map unat ?m)) = Inr ?m"
    by simp
  have d: "decodeURIComponent (escape ?m) = Inr ?s"
    by (rule decodeURIComponent_utf8 [OF wf16_JSON_stringify])
  have p: "JSON_parse ?s = Inr (JObj (map (\<lambda>p. (fst p, JStr (snd p))) obj))"
    by (rule JSON_parse_stringify [OF assms])
  from e a d p show ?thesis by (simp add: decodeObject_def)
qed

text \<open>
  Claim C1. In the browser, for every object whose property values are strings (any
  code units, printable or not) and whose keys are pairwise distinct and not array
  indices, as the keys \<open>LANGUAGE\<close>, \<open>NAME\<close>, \<open>FORCED\<close> and \<open>CHANNELS\<close> are,
  \<open>encodeObject\<close> returns a payload, and \<open>decodeObject\<close> of that payload returns an
  object with the same keys and the same string values, in the same order.
\<close>

theorem decode_encode_roundtrip:
  assumes "distinct (map fst obj)" and "\<forall>p \<in> set obj. \<not> is_array_index (fst p)"
  shows "\<exists>payload. encodeObject Browser obj = Inr payload
           \<and> decodeObject Browser payload = Inr (JObj (map (\<lambda>p. (fst p, JStr (snd p))) obj))"
  using assms by (rule codec_roundtrip)

definition ex_obj :: "(jsstring \<times> jsstring) list" where
  "ex_obj = [(js ''LANGUAGE'', js ''es''), (js ''NAME'', js ''Espa'' @ [0xF1] @ js ''ol'')]"

lemma ex_obj_encoded:
  "encodeObject Browser ex_obj = Inr (js ''eyJMQU5HVUFHRSI6ImVzIiwiTkFNRSI6IkVzcGHDsW9sIn0='')"
  by code_simp

theorem decode_encode_roundtrip_witness:
  "encodeObject Browser ex_obj = Inr (js ''eyJMQU5HVUFHRSI6ImVzIiwiTkFNRSI6IkVzcGHDsW9sIn0='')
   \<and> decodeObject Browser (js ''eyJMQU5HVUFHRSI6ImVzIiwiTkFNRSI6IkVzcGHDsW9sIn0='')
       = Inr (JObj [(js ''LANGUAGE'', JStr (js ''es'')),
                    (js ''NAME'', JStr (js ''Espa'' @ [0xF1] @ js ''ol''))])"
proof -
  have 1: "distinct (map fst ex_obj)" by code_simp
  have 2: "\<forall>p \<in> set ex_obj. \<not> is_array_index (fst p)" by code_simp
  from decode_encode_roundtrip [OF 1 2] ex_obj_encoded show ?thesis by (simp add: ex_obj_def)
qed


section \<open>The token of a rewritten line\<close>























text \<open>The steps of \<open>manifestRewriter\<close> on the attributes of a handled line: the list
  in \<open>CHARACTERISTICS\<close> before the rewrite, the attributes with the token appended to
  that list, and the attributes with the new language.\<close>

definition old_characteristics :: "kvobj \<Rightarrow> jsstring list" where
  "old_characteristics kv =
     (case kv_get kv (js ''CHARACTERISTICS'') of
        Some a \<Rightarrow> split_on COMMA (val a)
      | None \<Rightarrow> [])"

definition with_token :: "kvobj \<Rightarrow> jsstring \<Rightarrow> kvobj" where
  "with_token kv payload =
     kv_set kv (js ''CHARACTERISTICS'')
       \<lparr>val = join [COMMA] (old_characteristics kv @ [js ''xyzzy.obj.'' @ payload]),
        quoted = True\<rparr>"

definition with_language :: "kvobj \<Rightarrow> jsstring \<Rightarrow> kvobj" where
  "with_language kv tag = kv_set kv (js ''LANGUAGE'') \<lparr>val = tag, quoted = True\<rparr>"

lemma rewriteLine_handled:
  assumes "handled line"
  shows "rewriteLine ev state line =
     (case encodeObject ev (collect (parseAttrs [] (drop 13 line))) of
        Inl e \<Rightarrow> Inl e
      | Inr payload \<Rightarrow>
          (case langTag state (with_token (parseAttrs [] (drop 13 line)) payload) of
             Inl e \<Rightarrow> Inl e
           | Inr (state', tag) \<Rightarrow>
               Inr (state', js ''#EXT-X-MEDIA:''
                      @ serializeAttrs
                          (with_language (with_token (parseAttrs [] (drop 13 line)) payload) tag))))"
  using assms
  by (auto simp: handled_def rewriteLine_def Let_def with_token_def with_language_def
      old_characteristics_def split: option.splits sum.splits)









section \<open>Exceptions of the rewriter\<close>

text \<open>The only exception \<open>manifestRewriter\<close> raises is the ReferenceError of
  \<open>langTag\<close>, and it raises none on a manifest with at most 27 lines to rewrite.\<close>

lemma rewriteLine_error:
  "rewriteLine ev state line = Inl e \<Longrightarrow> e = ReferenceError"
proof (cases "handled line")
  case False
  assume "rewriteLine ev state line = Inl e"
  with False show ?thesis by (simp add: rewriteLine_unhandled)
next
  case True
  assume r: "rewriteLine ev state line = Inl e"
  from encodeObject_total [of ev "collect (parseAttrs [] (drop 13 line))"] obtain payload where
    "encodeObject ev (collect (parseAttrs [] (drop 13 line))) = Inr payload" by blast
  with r True show ?thesis
    by (auto simp: rewriteLine_handled langTag_result split: sum.splits if_splits)
qed

lemma rewriteLines_error:
  "rewriteLines ev state ls = Inl e \<Longrightarrow> e = ReferenceError"
  by (induction ls arbitrary: state)
     (auto split: sum.splits prod.splits dest: rewriteLine_error)

lemma manifestRewriter_error:
  "manifestRewriter ev m3u8 = Inl e \<Longrightarrow> e = ReferenceError"
  by (auto simp: manifestRewriter_def split: sum.splits dest: rewriteLines_error)

lemma rewriteLine_returns:
  assumes "\<forall>k. seen state k \<le> 26"
  shows "\<exists>state' line'. rewriteLine ev state line = Inr (state', line')
           \<and> (\<forall>k. seen state' k \<le> (if handled line then Suc (seen state k) else seen state k))"
proof (cases "handled line")
  case False
  then show ?thesis by (simp add: rewriteLine_unhandled)
next
  case True
  from encodeObject_total [of ev "collect (parseAttrs [] (drop 13 line))"] obtain payload where
    e: "encodeObject ev (collect (parseAttrs [] (drop 13 line))) = Inr payload" by blast
  let ?kv = "with_token (parseAttrs [] (drop 13 line)) payload"
  from assms have "\<not> 26 < seen state (tag_key ?kv)" by (simp add: not_less)
  with True e show ?thesis
    by (simp add: rewriteLine_handled langTag_result seen_upd)
qed

lemma rewriteLines_returns:
  "\<forall>k. seen state k + length (filter handled ls) \<le> 27 \<Longrightarrow>
   \<exists>ls'. rewriteLines ev state ls = Inr ls'"
proof (induction ls arbitrary: state)
  case Nil
  then show ?case by simp
next
  case (Cons l ls)
  show ?case
  proof (cases "handled l")
    case False
    with Cons.prems have "\<forall>k. seen state k + length (filter handled ls) \<le> 27" by simp
    from Cons.IH [OF this] False show ?thesis by (auto simp: rewriteLine_unhandled)
  next
    case True
    with Cons.prems have b: "\<forall>k. seen state k + length (filter handled ls) \<le> 26" by simp
    then have "\<forall>k. seen state k \<le> 26"
      by (metis add_leD1)
    from rewriteLine_returns [OF this, of ev l] True obtain state' l' where
      r: "rewriteLine ev state l = Inr (state', l')" and
      s: "\<forall>k. seen state' k \<le> Suc (seen state k)"
      by auto
    have "\<forall>k. seen state' k + length (filter handled ls) \<le> 27"
    proof
      fix k
      from s have "seen state' k \<le> Suc (seen state k)" by blast
      moreover from b have "seen state k + length (filter handled ls) \<le> 26" by blast
      ultimately show "seen state' k + length (filter handled ls) \<le> 27" by simp
    qed
    from Cons.IH [OF this] r show ?thesis by auto
  qed
qed

lemma manifestRewriter_returns:
  "length (filter handled (split_lines m3u8)) \<le> 27 \<Longrightarrow> \<exists>out. manifestRewriter ev m3u8 = Inr out"
proof -
  assume "length (filter handled (split_lines m3u8)) \<le> 27"
  then have "\<forall>k. seen Map.empty k + length (filter handled (split_lines m3u8)) \<le> 27"
    by (simp add: seen_def)
  from rewriteLines_returns [OF this, of ev] show ?thesis
    by (auto simp: manifestRewriter_def)
qed

text \<open>
  Claim C2. The claim does not hold of the code: on a manifest of 28 audio renditions
  with the same group and language, the exception of \<open>langTag\<close> leaves
  \<open>manifestRewriter\<close>, which has no \<open>try\<close> block of its own.
\<close>

theorem manifest_overflow_raises:
  "manifestRewriter Browser (join [LF] (replicate 28 (js ''#EXT-X-MEDIA:TYPE=AUDIO'')))
     = Inl ReferenceError"
  by code_simp


end
